theory Spec2Isabelle
  imports Complex_Main "HOL-Library.Word"
begin

unbundle bit_operations_syntax

section \<open>The slot-assignment globals of afl-llvm-pass\<close>

text \<open>
  The pass keeps its search state in file-scope globals. They are gathered in one record
  that every function takes and returns. \<open>unsigned int\<close> is a 32-bit word; a
  \<open>BasicBlock *\<close> is an identity of an arbitrary type \<open>'b\<close>. The loop counters
  \<open>x\<close>, \<open>y\<close>, \<open>z\<close> and \<open>i\<close> are C \<open>int\<close>s that only take values between 0 and the
  loop bound, so they are natural numbers here.
\<close>

type_synonym u32 = "32 word"

text \<open>\<open>using xyz = std::array<int, 3>\<close> and \<open>using cur_pre = std::array<unsigned int, 2>\<close>.\<close>

type_synonym xyz = "nat \<times> nat \<times> nat"
type_synonym cur_pre = "u32 \<times> u32"

record 'b globals =
  hashes :: "u32 set"
  tmpHashSet :: "u32 set"
  singleBBS :: "'b list"
  multiBBS :: "'b list"
  solv :: "'b list"
  unsolv :: "'b list"
  preds :: "'b \<rightharpoonup> 'b list"
  keys :: "'b \<rightharpoonup> u32"
  params :: "'b \<rightharpoonup> xyz"
  hashMap :: "cur_pre \<rightharpoonup> u32"
  singleMap :: "u32 \<rightharpoonup> u32"

text \<open>
  \<open>config.h\<close> is not part of the sources at hand. \<open>MAP_SIZE_POW2\<close> is therefore a
  parameter \<open>pow2\<close> of every function that uses it.

  Modelled from the spec: the macro \<open>MAP_SIZE\<close> of the missing \<open>config.h\<close>; the bitmap size
  is a power of two and \<open>MAP_SIZE_POW2\<close> is its logarithm.
\<close>

definition MAP_SIZE :: "nat \<Rightarrow> nat" where
  "MAP_SIZE pow2 = 2 ^ pow2"

text \<open>
  \<open>keys[BB]\<close> and \<open>preds[BB]\<close> are \<open>std::map::operator[]\<close>: a missing entry reads as the
  value-initialised element (0, the empty vector). The entry that \<open>operator[]\<close> creates
  on such a read holds that same value, so later reads are not affected and the maps are
  left as they are.
\<close>

definition key_of :: "'b globals \<Rightarrow> 'b \<Rightarrow> u32" where
  "key_of g BB = (case keys g BB of None \<Rightarrow> 0 | Some k \<Rightarrow> k)"

definition preds_of :: "'b globals \<Rightarrow> 'b \<Rightarrow> 'b list" where
  "preds_of g BB = (case preds g BB of None \<Rightarrow> [] | Some ps \<Rightarrow> ps)"

text \<open>The static initialisation of the globals: every container is empty.\<close>

definition init_globals :: "'b globals" where
  "init_globals =
     \<lparr> hashes = {}, tmpHashSet = {}, singleBBS = [], multiBBS = [], solv = [], unsolv = [],
       preds = Map.empty, keys = Map.empty, params = Map.empty, hashMap = Map.empty,
       singleMap = Map.empty \<rparr>"

text \<open>
  The globals as the collaborator that extracts the control-flow graph leaves them: the
  block lists, the predecessor lists and the keys filled in, the rest still empty.
\<close>

definition load_cfg ::
  "'b list \<Rightarrow> 'b list \<Rightarrow> ('b \<rightharpoonup> 'b list) \<Rightarrow> ('b \<rightharpoonup> u32) \<Rightarrow> 'b globals" where
  "load_cfg singles multis ps ks =
     init_globals \<lparr> singleBBS := singles, multiBBS := multis, preds := ps, keys := ks \<rparr>"

section \<open>The parametric hash solver\<close>

text \<open>
  \<open>static bool disjoint(set<unsigned int>& hashes, set<unsigned int>& tmpHashSet)\<close>:
  two nested loops that return false at the first equal pair.
\<close>

definition disjoint :: "u32 set \<Rightarrow> u32 set \<Rightarrow> bool" where
  "disjoint hs tmps = (\<forall>hash \<in> hs. \<forall>tmpHash \<in> tmps. hash \<noteq> tmpHash)"

text \<open>
  Line 97: \<open>auto edgeHash = (cur >> x) ^ (keys[p] >> y) + z;\<close>. In C++ the additive
  operator binds tighter than \<open>^\<close>, so the right operand of \<open>^\<close> is the sum. \<open>z\<close> is an
  \<open>int\<close> added to an \<open>unsigned int\<close>: it is converted and the sum wraps at 32 bits.
\<close>

definition edgeHash :: "u32 \<Rightarrow> u32 \<Rightarrow> nat \<Rightarrow> nat \<Rightarrow> nat \<Rightarrow> u32" where
  "edgeHash cur kp x y z = (drop_bit x cur) XOR (drop_bit y kp + of_nat z)"

text \<open>Lines 93 to 99: clear \<open>tmpHashSet\<close> and insert the hash of every incoming edge.\<close>

definition fill_tmp :: "'b globals \<Rightarrow> 'b \<Rightarrow> nat \<Rightarrow> nat \<Rightarrow> nat \<Rightarrow> 'b globals" where
  "fill_tmp g BB x y z =
     foldl (\<lambda>g' p. g' \<lparr> tmpHashSet := insert (edgeHash (key_of g BB) (key_of g p) x y z)
                                           (tmpHashSet g') \<rparr>)
       (g \<lparr> tmpHashSet := {} \<rparr>) (preds_of g BB)"

text \<open>
  Lines 93 to 106, the body of the \<open>z\<close> loop: one candidate \<open>(x, z)\<close>. There is no
  \<open>break\<close> after an accepted candidate.
\<close>

definition try_xz :: "nat \<Rightarrow> 'b \<Rightarrow> nat \<Rightarrow> 'b globals \<Rightarrow> nat \<Rightarrow> 'b globals" where
  "try_xz y BB x g z =
     (let g1 = fill_tmp g BB x y z in
      if card (tmpHashSet g1) = length (preds_of g1 BB) \<and> disjoint (tmpHashSet g1) (hashes g1)
      then g1 \<lparr> solv := solv g1 @ [BB],
                params := (params g1)(BB \<mapsto> (x, y, z)),
                hashes := hashes g1 \<union> tmpHashSet g1 \<rparr>
      else g1)"

text \<open>Lines 92 and 91: \<open>for (int z = 1; z < MAP_SIZE_POW2; z++)\<close> inside the same loop on \<open>x\<close>.\<close>

definition z_loop :: "nat \<Rightarrow> nat \<Rightarrow> 'b \<Rightarrow> 'b globals \<Rightarrow> nat \<Rightarrow> 'b globals" where
  "z_loop pow2 y BB g x = foldl (try_xz y BB x) g [1..<pow2]"

definition x_loop :: "nat \<Rightarrow> nat \<Rightarrow> 'b \<Rightarrow> 'b globals \<Rightarrow> 'b globals" where
  "x_loop pow2 y BB g = foldl (z_loop pow2 y BB) g [1..<pow2]"

text \<open>Lines 89 to 111, the body of the loop on \<open>multiBBS\<close>; line 110 has no condition.\<close>

definition solve_block :: "nat \<Rightarrow> nat \<Rightarrow> 'b globals \<Rightarrow> 'b \<Rightarrow> 'b globals" where
  "solve_block pow2 y g BB = (let g1 = x_loop pow2 y BB g in g1 \<lparr> unsolv := unsolv g1 @ [BB] \<rparr>)"

text \<open>Lines 85 to 111: one round of the loop on \<open>y\<close>, up to the test that ends it.\<close>

definition clear_round :: "'b globals \<Rightarrow> 'b globals" where
  "clear_round g = g \<lparr> hashes := {}, params := Map.empty, solv := [], unsolv := [] \<rparr>"

definition calcFmul_round :: "nat \<Rightarrow> nat \<Rightarrow> 'b globals \<Rightarrow> 'b globals" where
  "calcFmul_round pow2 y g = foldl (solve_block pow2 y) (clear_round g) (multiBBS g)"

text \<open>
  Lines 112 to 116. \<open>delta\<close> is 10 and \<open>sigma\<close> is 0.001. The quotient \<open>_min\<close> is a
  \<open>double\<close>; it is the exact quotient here. When both lists are empty the C++ quotient is
  a NaN, which is not less than \<open>sigma\<close>.
\<close>

definition delta :: nat where
  "delta = 10"

definition sigma :: real where
  "sigma = 0.001"

definition unsolved_ratio :: "'b globals \<Rightarrow> real" where
  "unsolved_ratio g = real (length (unsolv g)) / real (length (unsolv g) + length (solv g))"

definition round_breaks :: "'b globals \<Rightarrow> bool" where
  "round_breaks g =
     (length (unsolv g) < delta \<or>
      (length (unsolv g) + length (solv g) \<noteq> 0 \<and> unsolved_ratio g < sigma))"

text \<open>
  Line 83: \<open>for (int y = 1; y < MAP_SIZE_POW2; y++)\<close> with the \<open>break\<close> of line 118. The
  function returns the globals together with the value of \<open>y\<close> with which the loop is left.
  The locals \<open>min\<close> and \<open>i\<close> are only printed and are left out.
\<close>

function calcFmul_from :: "nat \<Rightarrow> nat \<Rightarrow> 'b globals \<Rightarrow> 'b globals \<times> nat" where
  "calcFmul_from pow2 y g =
     (if y < pow2
      then (let g1 = calcFmul_round pow2 y g in
            if round_breaks g1 then (g1, y) else calcFmul_from pow2 (Suc y) g1)
      else (g, y))"
  by pat_completeness auto
termination
  by (relation "measure (\<lambda>(pow2, y, g). pow2 - y)") auto

declare calcFmul_from.simps [simp del]

definition calcFmul :: "nat \<Rightarrow> 'b globals \<Rightarrow> 'b globals" where
  "calcFmul pow2 g = fst (calcFmul_from pow2 1 g)"

section \<open>The two table builders\<close>

text \<open>
  Lines 134 to 141 and 153 to 161: \<open>for (int i = 0; i < MAP_SIZE; i++)\<close> looking for the
  first \<open>i\<close> with \<open>!hashes.count(i)\<close>. The result is the index at the \<open>break\<close>, or \<open>None\<close>
  when the loop runs to its end. \<open>count\<close> takes an \<open>unsigned int\<close>, so \<open>i\<close> is converted.
\<close>

function first_free :: "nat \<Rightarrow> u32 set \<Rightarrow> nat \<Rightarrow> nat option" where
  "first_free m hs i =
     (if i < m then (if of_nat i \<notin> hs then Some i else first_free m hs (Suc i)) else None)"
  by pat_completeness auto
termination
  by (relation "measure (\<lambda>(m, hs, i). m - i)") auto

declare first_free.simps [simp del]

text \<open>Lines 133 to 141: one incoming edge of an unsolved block.\<close>

definition assign_edge :: "nat \<Rightarrow> u32 \<Rightarrow> 'b globals \<Rightarrow> 'b \<Rightarrow> 'b globals" where
  "assign_edge pow2 cur g p =
     (let pre = key_of g p in
      case first_free (MAP_SIZE pow2) (hashes g) 0 of
        None \<Rightarrow> g
      | Some i \<Rightarrow> g \<lparr> hashMap := (hashMap g)((cur, pre) \<mapsto> of_nat i),
                      hashes := insert (of_nat i) (hashes g) \<rparr>)"

definition hash_block :: "nat \<Rightarrow> 'b globals \<Rightarrow> 'b \<Rightarrow> 'b globals" where
  "hash_block pow2 g BB = foldl (assign_edge pow2 (key_of g BB)) g (preds_of g BB)"

definition calcFhash :: "nat \<Rightarrow> 'b globals \<Rightarrow> 'b globals" where
  "calcFhash pow2 g = foldl (hash_block pow2) (g \<lparr> hashMap := Map.empty \<rparr>) (unsolv g)"

text \<open>Lines 152 to 161: one block with a single predecessor.\<close>

definition assign_single :: "nat \<Rightarrow> 'b globals \<Rightarrow> 'b \<Rightarrow> 'b globals" where
  "assign_single pow2 g BB =
     (let cur = key_of g BB in
      case first_free (MAP_SIZE pow2) (hashes g) 0 of
        None \<Rightarrow> g
      | Some i \<Rightarrow> g \<lparr> singleMap := (singleMap g)(cur \<mapsto> of_nat i),
                      hashes := insert (of_nat i) (hashes g) \<rparr>)"

definition calcSingle :: "nat \<Rightarrow> 'b globals \<Rightarrow> 'b globals" where
  "calcSingle pow2 g = foldl (assign_single pow2) (g \<lparr> singleMap := Map.empty \<rparr>) (singleBBS g)"

text \<open>The three phases in the order the spec gives them, on the same globals.\<close>

definition run_phases :: "nat \<Rightarrow> 'b globals \<Rightarrow> 'b globals" where
  "run_phases pow2 g = calcSingle pow2 (calcFhash pow2 (calcFmul pow2 g))"

section \<open>The pass entry point\<close>

text \<open>
  \<open>AFLCoverage::runOnModule\<close>, lines 190 to 294. What it reads from outside the
  program is gathered in a record: whether descriptor 2 is a terminal, the environment,
  the result of \<open>sscanf(str, "%u", &inst_ratio)\<close> (the value when one item was read), and
  the macro \<open>AFL_R\<close> of the missing headers. \<open>AFL_R\<close> draws from the generator of the C
  library, so its result depends on how many draws came before: \<open>AFL_R e n x\<close> is the
  result of the draw number \<open>n\<close> of the run, made with the argument \<open>x\<close>.
\<close>

record os_env =
  isatty_stderr :: bool
  getenv :: "string \<rightharpoonup> string"
  sscanf_u :: "string \<Rightarrow> u32 option"
  AFL_R :: "nat \<Rightarrow> nat \<Rightarrow> nat"

text \<open>
  The instructions that the \<open>IRBuilder\<close> inserts. A value is the tree of the
  instructions that compute it; \<open>ConstantInt w v\<close> is the constant \<open>v\<close> of the integer
  type of \<open>w\<close> bits. The \<open>nosanitize\<close> metadata is left out.
\<close>

datatype ir_value =
    GlobalVariable string
  | ConstantInt nat nat
  | CreateLoad ir_value
  | CreateZExt ir_value nat
  | CreateXor ir_value ir_value
  | CreateGEP ir_value ir_value
  | CreateAdd ir_value ir_value

datatype ir_instr = Compute ir_value | CreateStore ir_value ir_value

definition AFLMapPtr :: ir_value where
  "AFLMapPtr = GlobalVariable ''__afl_area_ptr''"

definition AFLPrevLoc :: ir_value where
  "AFLPrevLoc = GlobalVariable ''__afl_prev_loc''"

text \<open>Lines 247 to 274: the instructions inserted into one block, for its \<open>cur_loc\<close>.\<close>

definition instrument :: "u32 \<Rightarrow> ir_instr list" where
  "instrument cur_loc =
     (let CurLoc = ConstantInt 32 (unat cur_loc);
          PrevLoc = CreateLoad AFLPrevLoc;
          PrevLocCasted = CreateZExt PrevLoc 32;
          MapPtr = CreateLoad AFLMapPtr;
          Index = CreateXor PrevLocCasted CurLoc;
          MapPtrIdx = CreateGEP MapPtr Index;
          Counter = CreateLoad MapPtrIdx;
          Incr = CreateAdd Counter (ConstantInt 8 1)
      in [Compute PrevLoc, Compute PrevLocCasted, Compute MapPtr, Compute Index,
          Compute MapPtrIdx, Compute Counter, Compute Incr,
          CreateStore Incr MapPtrIdx,
          CreateStore (ConstantInt 32 (unat (drop_bit 1 cur_loc))) AFLPrevLoc])"

text \<open>
  The state of the loop of lines 235 to 278: the number of draws made so far, the counter
  \<open>inst_blocks\<close>, and the blocks instrumented so far with the instructions put into them.
\<close>

record 'b emit_state =
  draws :: nat
  inst_blocks :: nat
  inserted :: "('b \<times> ir_instr list) list"

text \<open>Lines 238 to 276: one basic block.\<close>

definition visit_block :: "nat \<Rightarrow> os_env \<Rightarrow> u32 \<Rightarrow> 'b emit_state \<Rightarrow> 'b \<Rightarrow> 'b emit_state" where
  "visit_block pow2 e inst_ratio st BB =
     (let r = AFL_R e (draws st) 100;
          st1 = st \<lparr> draws := Suc (draws st) \<rparr>
      in if r \<ge> unat inst_ratio then st1
         else (let cur_loc = (of_nat (AFL_R e (draws st1) (MAP_SIZE pow2)) :: u32)
               in st1 \<lparr> draws := Suc (draws st1),
                        inst_blocks := Suc (inst_blocks st1),
                        inserted := inserted st1 @ [(BB, instrument cur_loc)] \<rparr>))"

datatype message = Banner | No_instrumentation_targets | Instrumented nat string nat

datatype fatal = Bad_AFL_INST_RATIO

record 'b pass_result =
  module_globals :: "ir_value list"
  instrumented :: "('b \<times> ir_instr list) list"
  messages :: "message list"
  returned :: bool

text \<open>Lines 209 to 218: the instrumentation ratio, or the \<open>FATAL\<close> that ends the process.\<close>

definition read_inst_ratio :: "os_env \<Rightarrow> fatal + u32" where
  "read_inst_ratio e =
     (case getenv e ''AFL_INST_RATIO'' of
        None \<Rightarrow> Inr 100
      | Some inst_ratio_str \<Rightarrow>
          (case sscanf_u e inst_ratio_str of
             None \<Rightarrow> Inl Bad_AFL_INST_RATIO
           | Some inst_ratio \<Rightarrow>
               if inst_ratio = 0 \<or> inst_ratio > 100 then Inl Bad_AFL_INST_RATIO
               else Inr inst_ratio))"

text \<open>Lines 286 to 288: the mode named in the final message.\<close>

definition mode_name :: "os_env \<Rightarrow> string" where
  "mode_name e =
     (if getenv e ''AFL_HARDEN'' \<noteq> None then ''hardened''
      else if getenv e ''AFL_USE_ASAN'' \<noteq> None \<or> getenv e ''AFL_USE_MSAN'' \<noteq> None
           then ''ASAN/MSAN'' else ''non-hardened'')"

text \<open>
  The whole function. A module is the list of its functions, a function the list of its
  basic blocks. The file-scope globals of the solver are in scope of this function as of
  every other, so it takes them and returns them with its result.
\<close>

definition runOnModule ::
  "nat \<Rightarrow> os_env \<Rightarrow> 'b list list \<Rightarrow> 'b globals \<Rightarrow> fatal + ('b pass_result \<times> 'b globals)" where
  "runOnModule pow2 e M g =
     (let be_quiet = \<not> (isatty_stderr e \<and> getenv e ''AFL_QUIET'' = None) in
      case read_inst_ratio e of
        Inl err \<Rightarrow> Inl err
      | Inr inst_ratio \<Rightarrow>
          (let st = foldl (\<lambda>st F. foldl (visit_block pow2 e inst_ratio) st F)
                      \<lparr> draws = 0, inst_blocks = 0, inserted = [] \<rparr> M
           in Inr (\<lparr> module_globals = [AFLMapPtr, AFLPrevLoc],
                     instrumented = inserted st,
                     messages =
                       (if be_quiet then [] else [Banner]) @
                       (if be_quiet then []
                        else if inst_blocks st = 0 then [No_instrumentation_targets]
                        else [Instrumented (inst_blocks st) (mode_name e) (unat inst_ratio)]),
                     returned = True \<rparr>, g)))"

section \<open>Notions used in the statements and proofs\<close>

text \<open>
  The hashes of the incoming edges of a block under given parameters, in the order of
  its predecessor list, and the test of line 101 in terms of them.
\<close>

definition cand_list :: "'b globals \<Rightarrow> 'b \<Rightarrow> nat \<Rightarrow> nat \<Rightarrow> nat \<Rightarrow> u32 list" where
  "cand_list g BB x y z = map (\<lambda>p. edgeHash (key_of g BB) (key_of g p) x y z) (preds_of g BB)"

definition accepts :: "'b globals \<Rightarrow> 'b \<Rightarrow> nat \<Rightarrow> nat \<Rightarrow> nat \<Rightarrow> bool" where
  "accepts g BB x y z \<longleftrightarrow>
     distinct (cand_list g BB x y z) \<and> set (cand_list g BB x y z) \<inter> hashes g = {}"

text \<open>The fields that the solver and the builders only read.\<close>

definition same_cfg :: "'b globals \<Rightarrow> 'b globals \<Rightarrow> bool" where
  "same_cfg g g' \<longleftrightarrow>
     keys g' = keys g \<and> preds g' = preds g \<and> multiBBS g' = multiBBS g \<and> singleBBS g' = singleBBS g"

text \<open>
  What every round of the solver keeps true: under the parameters of a block the hashes
  of its edges are distinct and are in \<open>hashes\<close>, two blocks with parameters share no
  hash, and the blocks in \<open>solv\<close> are the blocks with parameters.
\<close>

definition solver_inv :: "'b globals \<Rightarrow> bool" where
  "solver_inv g \<longleftrightarrow>
     (\<forall>B x y z. params g B = Some (x, y, z) \<longrightarrow>
        distinct (cand_list g B x y z) \<and> set (cand_list g B x y z) \<subseteq> hashes g) \<and>
     (\<forall>B B' x y z x' y' z'. B \<noteq> B' \<longrightarrow> params g B = Some (x, y, z) \<longrightarrow>
        params g B' = Some (x', y', z') \<longrightarrow>
        set (cand_list g B x y z) \<inter> set (cand_list g B' x' y' z') = {}) \<and>
     set (solv g) = dom (params g)"

section \<open>Slots and their owners\<close>

text \<open>
  A slot can be owned in three ways: by the \<open>i\<close>-th incoming edge of a block that has
  parameters, through the hash of that edge under the parameters; by a pair of keys in
  \<open>hashMap\<close>; by a key in \<open>singleMap\<close>.
\<close>

datatype 'b slot_owner = SolvedEdge 'b nat | FallbackEdge cur_pre | SingleBlock u32

fun slot_of :: "'b globals \<Rightarrow> 'b slot_owner \<Rightarrow> u32 option" where
  "slot_of g (SolvedEdge B i) =
     (case params g B of
        None \<Rightarrow> None
      | Some (x, y, z) \<Rightarrow>
          if i < length (preds_of g B)
          then Some (edgeHash (key_of g B) (key_of g (preds_of g B ! i)) x y z)
          else None)"
| "slot_of g (FallbackEdge k) = hashMap g k"
| "slot_of g (SingleBlock k) = singleMap g k"

text \<open>The bounds on the keys and on the elements of \<open>hashes\<close>.\<close>

definition slots_below :: "nat \<Rightarrow> 'b globals \<Rightarrow> bool" where
  "slots_below m g \<longleftrightarrow> (\<forall>h. h \<in> hashes g \<longrightarrow> unat h < m)"

definition keys_below :: "nat \<Rightarrow> 'b globals \<Rightarrow> bool" where
  "keys_below m g \<longleftrightarrow> (\<forall>b k. keys g b = Some k \<longrightarrow> unat k < m)"

text \<open>What the tables keep true while the builders run.\<close>

definition table_inv :: "'b globals \<Rightarrow> bool" where
  "table_inv g \<longleftrightarrow>
     (\<forall>k v. hashMap g k = Some v \<longrightarrow> v \<in> hashes g) \<and>
     (\<forall>k v. singleMap g k = Some v \<longrightarrow> v \<in> hashes g) \<and>
     (\<forall>k k' v. hashMap g k = Some v \<longrightarrow> hashMap g k' = Some v \<longrightarrow> k = k') \<and>
     (\<forall>k k' v. singleMap g k = Some v \<longrightarrow> singleMap g k' = Some v \<longrightarrow> k = k') \<and>
     (\<forall>k k' v. hashMap g k = Some v \<longrightarrow> singleMap g k' \<noteq> Some v) \<and>
     (\<forall>B x y z k v. params g B = Some (x, y, z) \<longrightarrow> hashMap g k = Some v \<longrightarrow>
        v \<notin> set (cand_list g B x y z)) \<and>
     (\<forall>B x y z k v. params g B = Some (x, y, z) \<longrightarrow> singleMap g k = Some v \<longrightarrow>
        v \<notin> set (cand_list g B x y z))"

definition run_inv :: "'b globals \<Rightarrow> bool" where
  "run_inv g \<longleftrightarrow> solver_inv g \<and> table_inv g"

section \<open>The instrumented blocks\<close>

text \<open>The instructions of a block that write to memory.\<close>

fun is_store :: "ir_instr \<Rightarrow> bool" where
  "is_store (CreateStore v p) = True"
| "is_store (Compute v) = False"

text \<open>
  The loop state \<open>st'\<close> comes after \<open>st\<close>: the blocks instrumented in between got the
  instructions for the results of draws made in between, each of a later draw than the
  one before.
\<close>

definition drawn_after :: "nat \<Rightarrow> os_env \<Rightarrow> 'b emit_state \<Rightarrow> 'b emit_state \<Rightarrow> bool" where
  "drawn_after pow2 e st st' \<longleftrightarrow>
     draws st \<le> draws st' \<and>
     (\<exists>ns. sorted_wrt (<) ns \<and> (\<forall>n. n \<in> set ns \<longrightarrow> draws st \<le> n \<and> n < draws st') \<and>
        map snd (inserted st') =
          map snd (inserted st) @ map (\<lambda>n. instrument (of_nat (AFL_R e n (MAP_SIZE pow2)))) ns)"

section \<open>The rounds of the sweep\<close>

text \<open>
  The loop of \<open>calcFmul_from\<close> once more, returning the globals at the end of every
  round that it runs, in order.
\<close>

function calcFmul_rounds :: "nat \<Rightarrow> nat \<Rightarrow> 'b globals \<Rightarrow> 'b globals list" where
  "calcFmul_rounds pow2 y g =
     (if y < pow2
      then (let g1 = calcFmul_round pow2 y g in
            g1 # (if round_breaks g1 then [] else calcFmul_rounds pow2 (Suc y) g1))
      else [])"
  by pat_completeness auto
termination
  by (relation "measure (\<lambda>(pow2, y, g). pow2 - y)") auto

declare calcFmul_rounds.simps [simp del]

section \<open>Concrete control-flow graphs\<close>

text \<open>
  Blocks are numbered. \<open>cfgA\<close>: block 0 (key 5) has the predecessors 1 (key 2) and 2
  (key 4); blocks 3 and 4 have a single predecessor. It is run with
  \<open>MAP_SIZE_POW2 = 3\<close>, a bitmap of 8 slots.
\<close>

definition cfgA :: "nat globals" where
  "cfgA = load_cfg [3, 4] [0] [0 \<mapsto> [1, 2]] [0 \<mapsto> 5, 1 \<mapsto> 2, 2 \<mapsto> 4, 3 \<mapsto> 1, 4 \<mapsto> 6]"

text \<open>
  \<open>cfgC\<close>: five blocks with a single predecessor and no other block. It is run with
  \<open>MAP_SIZE_POW2 = 2\<close>, a bitmap of 4 slots.
\<close>

definition cfgC :: "nat globals" where
  "cfgC = load_cfg [0, 1, 2, 3, 4] [] Map.empty [0 \<mapsto> 10, 1 \<mapsto> 11, 2 \<mapsto> 12, 3 \<mapsto> 13, 4 \<mapsto> 14]"

text \<open>
  \<open>cfgD\<close>: ten blocks 0 to 9, each with the predecessors 10 (key 1) and 11 (key 2); the
  ten blocks have no key of their own, so their key reads as 0.
\<close>

definition cfgD :: "nat globals" where
  "cfgD = load_cfg [] [0, 1, 2, 3, 4, 5, 6, 7, 8, 9] (\<lambda>b. if b < 10 then Some [10, 11] else None)
            [10 \<mapsto> 1, 11 \<mapsto> 2]"

text \<open>
  \<open>cfgE\<close>: block 0 (key 0) has the predecessors 1 (key 16) and 2 (key 32); blocks 3 and 4
  have a single predecessor. It is run with \<open>MAP_SIZE_POW2 = 2\<close>, a bitmap of 4 slots, so
  two of the keys are not below the size of the bitmap.
\<close>

definition cfgE :: "nat globals" where
  "cfgE = load_cfg [3, 4] [0] [0 \<mapsto> [1, 2]] [0 \<mapsto> 0, 1 \<mapsto> 16, 2 \<mapsto> 32, 3 \<mapsto> 1, 4 \<mapsto> 2]"

text \<open>
  An environment for the pass: no terminal, no variable set, and a generator whose draw
  number \<open>n\<close> gives \<open>(7 * n + 3) mod x\<close>.
\<close>

definition envW :: os_env where
  "envW = \<lparr> isatty_stderr = False, getenv = Map.empty, sscanf_u = (\<lambda>s. None),
             AFL_R = (\<lambda>n x. (7 * n + 3) mod x) \<rparr>"

section \<open>The hash formula of the specification\<close>

text \<open>
  The formula as the specification writes it,
  \<open>hash(pred) = (key[B] >> x) XOR ((key[pred] >> y) + z)\<close>, read on natural numbers:
  the sum is formed first and nothing wraps.
\<close>

definition spec_hash :: "nat \<Rightarrow> nat \<Rightarrow> nat \<Rightarrow> nat \<Rightarrow> nat \<Rightarrow> nat" where
  "spec_hash keyB keyP x y z = (drop_bit x keyB) XOR ((drop_bit y keyP) + z)"

section \<open>Auxiliary lemmas\<close>

lemma foldl_invariant:
  "P s \<Longrightarrow> (\<And>s x. P s \<Longrightarrow> x \<in> set xs \<Longrightarrow> P (f s x)) \<Longrightarrow> P (foldl f s xs)"
  by (induction xs arbitrary: s) auto

lemma disjoint_iff: "disjoint A B \<longleftrightarrow> A \<inter> B = {}"
  by (auto simp: disjoint_def)

lemma fill_fold:
  "foldl (\<lambda>g' p. g' \<lparr> tmpHashSet := insert (f p) (tmpHashSet g') \<rparr>) g0 ps
     = g0 \<lparr> tmpHashSet := f ` set ps \<union> tmpHashSet g0 \<rparr>"
  by (induction ps arbitrary: g0) auto

lemma fill_tmp_eq: "fill_tmp g BB x y z = g \<lparr> tmpHashSet := set (cand_list g BB x y z) \<rparr>"
  by (simp add: fill_tmp_def fill_fold cand_list_def)

lemma key_of_frame [simp]:
  "key_of (g \<lparr> tmpHashSet := T \<rparr>) = key_of g"
  "key_of (g \<lparr> hashes := H \<rparr>) = key_of g"
  "key_of (g \<lparr> solv := S \<rparr>) = key_of g"
  "key_of (g \<lparr> unsolv := U \<rparr>) = key_of g"
  "key_of (g \<lparr> params := pm \<rparr>) = key_of g"
  "key_of (g \<lparr> hashMap := hm \<rparr>) = key_of g"
  "key_of (g \<lparr> singleMap := sm \<rparr>) = key_of g"
  by (simp_all add: key_of_def fun_eq_iff)

lemma preds_of_frame [simp]:
  "preds_of (g \<lparr> tmpHashSet := T \<rparr>) = preds_of g"
  "preds_of (g \<lparr> hashes := H \<rparr>) = preds_of g"
  "preds_of (g \<lparr> solv := S \<rparr>) = preds_of g"
  "preds_of (g \<lparr> unsolv := U \<rparr>) = preds_of g"
  "preds_of (g \<lparr> params := pm \<rparr>) = preds_of g"
  "preds_of (g \<lparr> hashMap := hm \<rparr>) = preds_of g"
  "preds_of (g \<lparr> singleMap := sm \<rparr>) = preds_of g"
  by (simp_all add: preds_of_def fun_eq_iff)

lemma cand_list_frame [simp]:
  "cand_list (g \<lparr> tmpHashSet := T \<rparr>) = cand_list g"
  "cand_list (g \<lparr> hashes := H \<rparr>) = cand_list g"
  "cand_list (g \<lparr> solv := S \<rparr>) = cand_list g"
  "cand_list (g \<lparr> unsolv := U \<rparr>) = cand_list g"
  "cand_list (g \<lparr> params := pm \<rparr>) = cand_list g"
  "cand_list (g \<lparr> hashMap := hm \<rparr>) = cand_list g"
  "cand_list (g \<lparr> singleMap := sm \<rparr>) = cand_list g"
  by (simp_all add: cand_list_def fun_eq_iff)

lemma try_xz_eq:
  "try_xz y BB x g z =
     (if accepts g BB x y z
      then g \<lparr> tmpHashSet := set (cand_list g BB x y z),
               solv := solv g @ [BB],
               params := (params g)(BB \<mapsto> (x, y, z)),
               hashes := hashes g \<union> set (cand_list g BB x y z) \<rparr>
      else g \<lparr> tmpHashSet := set (cand_list g BB x y z) \<rparr>)"
proof -
  have "card (set (cand_list g BB x y z)) = length (preds_of g BB)
          \<longleftrightarrow> distinct (cand_list g BB x y z)"
    using card_distinct [of "cand_list g BB x y z"] distinct_card [of "cand_list g BB x y z"]
    by (auto simp: cand_list_def)
  then show ?thesis
    by (simp add: try_xz_def fill_tmp_eq Let_def disjoint_iff accepts_def)
qed

lemma same_cfg_refl [simp]: "same_cfg g g"
  by (simp add: same_cfg_def)

lemma same_cfg_trans: "same_cfg g g' \<Longrightarrow> same_cfg g' g'' \<Longrightarrow> same_cfg g g''"
  by (simp add: same_cfg_def)

lemma same_cfg_key_of: "same_cfg g g' \<Longrightarrow> key_of g' = key_of g"
  by (simp add: same_cfg_def key_of_def fun_eq_iff)

lemma same_cfg_preds_of: "same_cfg g g' \<Longrightarrow> preds_of g' = preds_of g"
  by (simp add: same_cfg_def preds_of_def fun_eq_iff)

lemma same_cfg_cand_list: "same_cfg g g' \<Longrightarrow> cand_list g' = cand_list g"
  by (simp add: cand_list_def fun_eq_iff same_cfg_key_of same_cfg_preds_of)

lemma solver_inv_try_xz: "solver_inv g \<Longrightarrow> solver_inv (try_xz y BB x g z)"
  unfolding try_xz_eq solver_inv_def accepts_def
  apply (simp split: if_splits)
  apply (intro conjI impI allI)
    apply blast
   apply blast
  apply blast
  done

lemma same_cfg_try_xz: "same_cfg g (try_xz y BB x g z)"
  by (simp add: try_xz_eq same_cfg_def)

lemma unsolv_try_xz: "unsolv (try_xz y BB x g z) = unsolv g"
  by (simp add: try_xz_eq)

lemma tables_try_xz:
  "hashMap (try_xz y BB x g z) = hashMap g" "singleMap (try_xz y BB x g z) = singleMap g"
  by (simp_all add: try_xz_eq)

text \<open>A property that every candidate keeps is kept by the whole search for a block.\<close>

lemma x_loop_invariant:
  assumes "P g" and "\<And>g x z. P g \<Longrightarrow> x \<in> {1..<pow2} \<Longrightarrow> z \<in> {1..<pow2} \<Longrightarrow> P (try_xz y BB x g z)"
  shows "P (x_loop pow2 y BB g)"
  unfolding x_loop_def z_loop_def
proof (rule foldl_invariant [where P = P])
  show "P g" by (rule assms(1))
next
  fix s x
  assume s: "P s" and x: "x \<in> set [1..<pow2]"
  show "P (foldl (try_xz y BB x) s [1..<pow2])"
  proof (rule foldl_invariant [where P = P])
    show "P s" by (rule s)
  next
    fix s' z
    assume "P s'" and "z \<in> set [1..<pow2]"
    with x show "P (try_xz y BB x s' z)" by (simp add: assms(2))
  qed
qed

lemma solver_inv_solve_block: "solver_inv g \<Longrightarrow> solver_inv (solve_block pow2 y g BB)"
proof -
  assume "solver_inv g"
  then have "solver_inv (x_loop pow2 y BB g)"
    by (rule x_loop_invariant) (rule solver_inv_try_xz)
  then show ?thesis
    by (simp add: solve_block_def Let_def solver_inv_def)
qed

lemma same_cfg_solve_block: "same_cfg g (solve_block pow2 y g BB)"
proof -
  have "same_cfg g (x_loop pow2 y BB g)"
    by (rule x_loop_invariant) (auto intro: same_cfg_trans same_cfg_try_xz)
  then show ?thesis
    by (simp add: solve_block_def Let_def same_cfg_def)
qed

lemma unsolv_solve_block: "unsolv (solve_block pow2 y g BB) = unsolv g @ [BB]"
proof -
  have "unsolv (x_loop pow2 y BB g) = unsolv g"
    by (rule x_loop_invariant) (simp_all add: unsolv_try_xz)
  then show ?thesis
    by (simp add: solve_block_def Let_def)
qed

lemma unsolv_foldl_solve_block:
  "unsolv (foldl (solve_block pow2 y) g bs) = unsolv g @ bs"
  by (induction bs arbitrary: g) (simp_all add: unsolv_solve_block)

lemma unsolv_calcFmul_round: "unsolv (calcFmul_round pow2 y g) = multiBBS g"
  by (simp add: calcFmul_round_def unsolv_foldl_solve_block clear_round_def)

lemma solver_inv_clear_round: "solver_inv (clear_round g)"
  by (simp add: solver_inv_def clear_round_def)

lemma same_cfg_clear_round: "same_cfg g (clear_round g)"
  by (simp add: same_cfg_def clear_round_def)

lemma solver_inv_calcFmul_round: "solver_inv (calcFmul_round pow2 y g)"
  unfolding calcFmul_round_def
  by (rule foldl_invariant) (simp_all add: solver_inv_clear_round solver_inv_solve_block)

lemma same_cfg_calcFmul_round: "same_cfg g (calcFmul_round pow2 y g)"
  unfolding calcFmul_round_def
  by (rule foldl_invariant)
     (auto intro: same_cfg_clear_round same_cfg_trans same_cfg_solve_block)

text \<open>What holds before the sweep and after every round holds when the sweep is left.\<close>

lemma calcFmul_from_invariant:
  "P g \<Longrightarrow> (\<And>y' g. P g \<Longrightarrow> y \<le> y' \<Longrightarrow> y' < pow2 \<Longrightarrow> P (calcFmul_round pow2 y' g))
     \<Longrightarrow> P (fst (calcFmul_from pow2 y g))"
proof (induction pow2 y g rule: calcFmul_from.induct)
  case (1 pow2 y g)
  show ?case
  proof (cases "y < pow2")
    case False
    with "1.prems"(1) show ?thesis by (simp add: calcFmul_from.simps)
  next
    case True
    let ?g1 = "calcFmul_round pow2 y g"
    have g1: "P ?g1" using "1.prems"(1) order_refl True by (rule "1.prems"(2))
    show ?thesis
    proof (cases "round_breaks ?g1")
      case True
      with \<open>y < pow2\<close> g1 show ?thesis by (simp add: calcFmul_from.simps [of pow2 y g])
    next
      case False
      have "P (fst (calcFmul_from pow2 (Suc y) ?g1))"
        using \<open>y < pow2\<close> refl False g1
      proof (rule "1.IH")
        fix y' h
        assume "P h" and "Suc y \<le> y'" and "y' < pow2"
        then show "P (calcFmul_round pow2 y' h)" by (intro "1.prems"(2)) simp_all
      qed
      with \<open>y < pow2\<close> False show ?thesis
        by (simp add: calcFmul_from.simps [of pow2 y g])
    qed
  qed
qed

lemma calcFmul_invariant:
  assumes "P g" and "\<And>y g. P g \<Longrightarrow> 1 \<le> y \<Longrightarrow> y < pow2 \<Longrightarrow> P (calcFmul_round pow2 y g)"
  shows "P (calcFmul pow2 g)"
  unfolding calcFmul_def by (rule calcFmul_from_invariant [where P = P]) (fact assms)+

lemma same_cfg_calcFmul: "same_cfg g (calcFmul pow2 g)"
  by (rule calcFmul_invariant) (auto intro: same_cfg_trans same_cfg_calcFmul_round)

lemma solver_inv_calcFmul: "solver_inv g \<Longrightarrow> solver_inv (calcFmul pow2 g)"
  by (rule calcFmul_invariant) (simp_all add: solver_inv_calcFmul_round)

lemma solver_inv_load_cfg: "solver_inv (load_cfg singles multis ps ks)"
  by (simp add: solver_inv_def load_cfg_def init_globals_def)

lemma calcFmul_from_rounds:
  assumes "y < pow2" and "\<And>y g'. same_cfg g g' \<Longrightarrow> Q (calcFmul_round pow2 y g')"
  shows "Q (fst (calcFmul_from pow2 y g))"
proof -
  let ?g1 = "calcFmul_round pow2 y g"
  have g1: "Q ?g1 \<and> same_cfg g ?g1"
    by (simp add: assms(2) same_cfg_calcFmul_round)
  show ?thesis
  proof (cases "round_breaks ?g1")
    case True
    with assms(1) g1 show ?thesis by (simp add: calcFmul_from.simps [of pow2 y g])
  next
    case False
    have "Q (fst (calcFmul_from pow2 (Suc y) ?g1)) \<and> same_cfg g (fst (calcFmul_from pow2 (Suc y) ?g1))"
      by (rule calcFmul_from_invariant [where P = "\<lambda>h. Q h \<and> same_cfg g h"])
         (auto intro: g1 assms(2) same_cfg_trans same_cfg_calcFmul_round)
    with assms(1) False show ?thesis by (simp add: calcFmul_from.simps [of pow2 y g])
  qed
qed

lemma unsolv_calcFmul: "2 \<le> pow2 \<Longrightarrow> unsolv (calcFmul pow2 g) = multiBBS g"
  unfolding calcFmul_def
  by (rule calcFmul_from_rounds) (simp_all add: unsolv_calcFmul_round same_cfg_def)

lemma solv_solve_block: "set (solv (solve_block pow2 y g BB)) \<subseteq> insert BB (set (solv g))"
proof -
  have "set (solv (x_loop pow2 y BB g)) \<subseteq> insert BB (set (solv g))"
    by (rule x_loop_invariant) (auto simp: try_xz_eq)
  then show ?thesis by (simp add: solve_block_def Let_def)
qed

lemma solv_foldl_solve_block:
  "set (solv (foldl (solve_block pow2 y) g bs)) \<subseteq> set (solv g) \<union> set bs"
proof (induction bs arbitrary: g)
  case Nil
  show ?case by simp
next
  case (Cons b bs)
  from Cons.IH [of "solve_block pow2 y g b"] solv_solve_block [of pow2 y g b]
  show ?case by auto
qed

lemma solv_calcFmul_round: "set (solv (calcFmul_round pow2 y g)) \<subseteq> set (multiBBS g)"
  using solv_foldl_solve_block [of pow2 y "clear_round g" "multiBBS g"]
  by (simp add: calcFmul_round_def clear_round_def)

subsection \<open>The runs of the concrete graphs\<close>

lemmas solver_defs =
  load_cfg_def init_globals_def calcFmul_def calcFmul_from.simps calcFmul_round_def
  clear_round_def solve_block_def x_loop_def z_loop_def try_xz_def fill_tmp_def key_of_def
  preds_of_def edgeHash_def disjoint_def round_breaks_def delta_def upt_rec Let_def

lemmas builder_defs =
  run_phases_def calcFhash_def hash_block_def assign_edge_def calcSingle_def assign_single_def
  MAP_SIZE_def first_free.simps key_of_def preds_of_def Let_def

lemma round_cfgA:
  "calcFmul_round 3 1 cfgA =
     cfgA \<lparr> hashes := {0, 1, 2, 3}, tmpHashSet := {2, 5}, solv := [0, 0], unsolv := [0],
            params := [0 \<mapsto> (2, 1, 1)] \<rparr>"
  apply (simp add: cfgA_def solver_defs)
  apply (auto simp: fun_eq_iff)
  done

lemma calcFmul_cfgA: "calcFmul 3 cfgA = calcFmul_round 3 1 cfgA"
  by (simp add: calcFmul_def calcFmul_from.simps [of 3 1] round_cfgA round_breaks_def delta_def
        del: One_nat_def)

lemma run_cfgA:
  "run_phases 3 cfgA =
     cfgA \<lparr> hashes := {7, 6, 5, 4, 0, 1, 2, 3}, tmpHashSet := {2, 5}, solv := [0, 0], unsolv := [0],
            params := [0 \<mapsto> (2, 1, 1)], hashMap := [(5, 2) \<mapsto> 4, (5, 4) \<mapsto> 5],
            singleMap := [1 \<mapsto> 6, 6 \<mapsto> 7] \<rparr>"
  unfolding run_phases_def calcFmul_cfgA round_cfgA
  by (simp add: cfgA_def load_cfg_def init_globals_def builder_defs)

subsection \<open>Words and the first-fit scan\<close>

lemma unat_shifted_plus:
  fixes kp :: u32
  assumes "1 \<le> y" and "z < 2 ^ 31"
  shows "unat (drop_bit y kp + of_nat z) = drop_bit y (unat kp) + z"
proof -
  have "unat kp < 2 ^ 32"
    using unsigned_less [of kp] by simp
  have "(2::nat) ^ 1 \<le> 2 ^ y"
    using assms(1) by (intro power_increasing) simp_all
  then have "unat kp div 2 ^ y \<le> unat kp div 2 ^ 1"
    by (intro div_le_mono2) simp_all
  also have "\<dots> < 2 ^ 31" using \<open>unat kp < 2 ^ 32\<close> by simp
  finally have small: "drop_bit y (unat kp) < 2 ^ 31" by (simp add: drop_bit_eq_div)
  have "unat (drop_bit y kp + of_nat z) = (unat (drop_bit y kp) + unat (of_nat z :: u32)) mod 2 ^ 32"
    by (simp add: unat_word_ariths)
  also have "unat (drop_bit y kp) = drop_bit y (unat kp)"
    by (simp add: unat_drop_bit_eq)
  also have "unat (of_nat z :: u32) = z"
    using assms(2) by (simp add: unat_of_nat)
  also have "(drop_bit y (unat kp) + z) mod 2 ^ 32 = drop_bit y (unat kp) + z"
    using small assms(2) by simp
  finally show ?thesis .
qed

lemma unat_edgeHash:
  assumes "1 \<le> y" and "z < 2 ^ 31"
  shows "unat (edgeHash cur kp x y z) = spec_hash (unat cur) (unat kp) x y z"
  by (simp add: edgeHash_def spec_hash_def unsigned_xor_eq unat_drop_bit_eq unat_shifted_plus [OF assms])

lemma first_free_Some:
  "first_free m hs i = Some j \<longleftrightarrow>
     i \<le> j \<and> j < m \<and> of_nat j \<notin> hs \<and> (\<forall>k. i \<le> k \<and> k < j \<longrightarrow> of_nat k \<in> hs)"
proof (induction m hs i rule: first_free.induct)
  case (1 m hs i)
  show ?case
  proof (cases "i < m")
    case False
    then show ?thesis by (auto simp: first_free.simps [of m hs i])
  next
    case True
    show ?thesis
    proof (cases "of_nat i \<in> hs")
      case False
      with True show ?thesis
        by (auto simp: first_free.simps [of m hs i] dest: leD)
    next
      case inhs: True
      have "first_free m hs i = first_free m hs (Suc i)"
        using True inhs by (simp add: first_free.simps [of m hs i])
      also have "\<dots> = Some j \<longleftrightarrow> Suc i \<le> j \<and> j < m \<and> of_nat j \<notin> hs \<and> (\<forall>k. Suc i \<le> k \<and> k < j \<longrightarrow> of_nat k \<in> hs)"
        using 1 True inhs by simp
      also have "\<dots> \<longleftrightarrow> i \<le> j \<and> j < m \<and> of_nat j \<notin> hs \<and> (\<forall>k. i \<le> k \<and> k < j \<longrightarrow> of_nat k \<in> hs)"
        using inhs by (metis Suc_leD Suc_leI le_neq_implies_less order_refl)
      finally show ?thesis .
    qed
  qed
qed

lemma first_free_None:
  "first_free m hs i = None \<longleftrightarrow> (\<forall>k. i \<le> k \<and> k < m \<longrightarrow> of_nat k \<in> hs)"
proof (induction m hs i rule: first_free.induct)
  case (1 m hs i)
  show ?case
  proof (cases "i < m")
    case False
    then show ?thesis by (auto simp: first_free.simps [of m hs i])
  next
    case True
    show ?thesis
    proof (cases "of_nat i \<in> hs")
      case False
      with True show ?thesis
        by (auto simp: first_free.simps [of m hs i])
    next
      case inhs: True
      have "first_free m hs i = first_free m hs (Suc i)"
        using True inhs by (simp add: first_free.simps [of m hs i])
      also have "\<dots> = None \<longleftrightarrow> (\<forall>k. Suc i \<le> k \<and> k < m \<longrightarrow> of_nat k \<in> hs)"
        using 1 True inhs by simp
      also have "\<dots> \<longleftrightarrow> (\<forall>k. i \<le> k \<and> k < m \<longrightarrow> of_nat k \<in> hs)"
        using inhs by (metis Suc_leD Suc_leI le_neq_implies_less)
      finally show ?thesis .
    qed
  qed
qed

lemma assign_edge_full:
  assumes "\<forall>i < MAP_SIZE pow2. of_nat i \<in> hashes g"
  shows "assign_edge pow2 cur g p = g"
proof -
  have "first_free (MAP_SIZE pow2) (hashes g) 0 = None"
    using assms by (simp add: first_free_None)
  then show ?thesis by (simp add: assign_edge_def)
qed

lemma assign_single_full:
  assumes "\<forall>i < MAP_SIZE pow2. of_nat i \<in> hashes g"
  shows "assign_single pow2 g BB = g"
proof -
  have "first_free (MAP_SIZE pow2) (hashes g) 0 = None"
    using assms by (simp add: first_free_None)
  then show ?thesis by (simp add: assign_single_def)
qed

lemma foldl_fixed: "(\<And>x. f s x = s) \<Longrightarrow> foldl f s xs = s"
  by (induction xs) simp_all


subsection \<open>The sweep over \<open>y\<close>\<close>

lemma calcFmul_from_cases:
  "\<not> y < pow2 \<Longrightarrow> calcFmul_from pow2 y g = (g, y)"
  "y < pow2 \<Longrightarrow> round_breaks (calcFmul_round pow2 y g)
     \<Longrightarrow> calcFmul_from pow2 y g = (calcFmul_round pow2 y g, y)"
  "y < pow2 \<Longrightarrow> \<not> round_breaks (calcFmul_round pow2 y g)
     \<Longrightarrow> calcFmul_from pow2 y g = calcFmul_from pow2 (Suc y) (calcFmul_round pow2 y g)"
  by (simp_all add: calcFmul_from.simps [of pow2 y g] Let_def)

lemma calcFmul_rounds_cases:
  "\<not> y < pow2 \<Longrightarrow> calcFmul_rounds pow2 y g = []"
  "y < pow2 \<Longrightarrow> round_breaks (calcFmul_round pow2 y g)
     \<Longrightarrow> calcFmul_rounds pow2 y g = [calcFmul_round pow2 y g]"
  "y < pow2 \<Longrightarrow> \<not> round_breaks (calcFmul_round pow2 y g)
     \<Longrightarrow> calcFmul_rounds pow2 y g
           = calcFmul_round pow2 y g # calcFmul_rounds pow2 (Suc y) (calcFmul_round pow2 y g)"
  by (simp_all add: calcFmul_rounds.simps [of pow2 y g] Let_def)

lemma calcFmul_rounds_Nil: "calcFmul_rounds pow2 y g = [] \<longleftrightarrow> \<not> y < pow2"
  by (cases "y < pow2"; cases "round_breaks (calcFmul_round pow2 y g)")
     (simp_all add: calcFmul_rounds_cases)

lemma snd_calcFmul_from_ge: "y \<le> snd (calcFmul_from pow2 y g)"
proof (induction pow2 y g rule: calcFmul_from.induct)
  case (1 pow2 y g)
  let ?g1 = "calcFmul_round pow2 y g"
  consider (stop) "\<not> y < pow2" | (brk) "y < pow2" "round_breaks ?g1"
    | (cont) "y < pow2" "\<not> round_breaks ?g1" by blast
  then show ?case
  proof cases
    case stop
    show ?thesis unfolding calcFmul_from_cases(1) [OF stop] by simp
  next
    case brk
    show ?thesis unfolding calcFmul_from_cases(2) [OF brk] by simp
  next
    case cont
    from "1.IH" [OF cont(1) refl cont(2)] have "Suc y \<le> snd (calcFmul_from pow2 (Suc y) ?g1)" .
    then show ?thesis unfolding calcFmul_from_cases(3) [OF cont] by simp
  qed
qed

lemma snd_calcFmul_from_le: "snd (calcFmul_from pow2 y g) \<le> max y pow2"
proof (induction pow2 y g rule: calcFmul_from.induct)
  case (1 pow2 y g)
  let ?g1 = "calcFmul_round pow2 y g"
  consider (stop) "\<not> y < pow2" | (brk) "y < pow2" "round_breaks ?g1"
    | (cont) "y < pow2" "\<not> round_breaks ?g1" by blast
  then show ?case
  proof cases
    case stop
    then show ?thesis unfolding calcFmul_from_cases(1) [OF stop] by simp
  next
    case brk
    then show ?thesis unfolding calcFmul_from_cases(2) [OF brk] by simp
  next
    case cont
    from "1.IH" [OF cont(1) refl cont(2)]
    have "snd (calcFmul_from pow2 (Suc y) ?g1) \<le> max (Suc y) pow2" .
    with cont(1) show ?thesis unfolding calcFmul_from_cases(3) [OF cont] by simp
  qed
qed

lemma length_calcFmul_rounds: "length (calcFmul_rounds pow2 y g) \<le> pow2 - y"
proof (induction pow2 y g rule: calcFmul_rounds.induct)
  case (1 pow2 y g)
  let ?g1 = "calcFmul_round pow2 y g"
  consider (stop) "\<not> y < pow2" | (brk) "y < pow2" "round_breaks ?g1"
    | (cont) "y < pow2" "\<not> round_breaks ?g1" by blast
  then show ?case
  proof cases
    case stop
    then show ?thesis unfolding calcFmul_rounds_cases(1) [OF stop] by simp
  next
    case brk
    then show ?thesis unfolding calcFmul_rounds_cases(2) [OF brk] by simp
  next
    case cont
    from "1.IH" [OF cont(1) refl cont(2)]
    have "length (calcFmul_rounds pow2 (Suc y) ?g1) \<le> pow2 - Suc y" .
    with cont(1) show ?thesis unfolding calcFmul_rounds_cases(3) [OF cont] by simp
  qed
qed

lemma last_calcFmul_rounds:
  "fst (calcFmul_from pow2 y g) = last (g # calcFmul_rounds pow2 y g)"
proof (induction pow2 y g rule: calcFmul_from.induct)
  case (1 pow2 y g)
  let ?g1 = "calcFmul_round pow2 y g"
  consider (stop) "\<not> y < pow2" | (brk) "y < pow2" "round_breaks ?g1"
    | (cont) "y < pow2" "\<not> round_breaks ?g1" by blast
  then show ?case
  proof cases
    case stop
    show ?thesis
      unfolding calcFmul_from_cases(1) [OF stop] calcFmul_rounds_cases(1) [OF stop] by simp
  next
    case brk
    show ?thesis
      unfolding calcFmul_from_cases(2) [OF brk] calcFmul_rounds_cases(2) [OF brk] by simp
  next
    case cont
    from "1.IH" [OF cont(1) refl cont(2)] show ?thesis
      unfolding calcFmul_from_cases(3) [OF cont] calcFmul_rounds_cases(3) [OF cont] by simp
  qed
qed

text \<open>
  The \<open>k\<close>-th recorded round is the round \<open>y + k\<close> run on the globals before it; the
  sweep is left with this value of \<open>y\<close> exactly when its test holds, and no round follows
  one whose test holds.
\<close>

lemma nth_calcFmul_rounds:
  "k < length (calcFmul_rounds pow2 y g) \<Longrightarrow>
     calcFmul_rounds pow2 y g ! k = calcFmul_round pow2 (y + k) ((g # calcFmul_rounds pow2 y g) ! k)"
proof (induction pow2 y g arbitrary: k rule: calcFmul_rounds.induct)
  case (1 pow2 y g)
  let ?g1 = "calcFmul_round pow2 y g"
  consider (stop) "\<not> y < pow2" | (brk) "y < pow2" "round_breaks ?g1"
    | (cont) "y < pow2" "\<not> round_breaks ?g1" by blast
  then show ?case
  proof cases
    case stop
    with "1.prems" show ?thesis unfolding calcFmul_rounds_cases(1) [OF stop] by simp
  next
    case brk
    from "1.prems" have "k = 0" unfolding calcFmul_rounds_cases(2) [OF brk] by simp
    then show ?thesis unfolding calcFmul_rounds_cases(2) [OF brk] by simp
  next
    case cont
    show ?thesis
    proof (cases k)
      case 0
      then show ?thesis unfolding calcFmul_rounds_cases(3) [OF cont] by simp
    next
      case (Suc k')
      with "1.prems" have "k' < length (calcFmul_rounds pow2 (Suc y) ?g1)"
        unfolding calcFmul_rounds_cases(3) [OF cont] by simp
      from "1.IH" [OF cont(1) refl cont(2) this] Suc show ?thesis
        unfolding calcFmul_rounds_cases(3) [OF cont] by simp
    qed
  qed
qed

lemma break_calcFmul_rounds:
  "k < length (calcFmul_rounds pow2 y g) \<Longrightarrow>
     (round_breaks (calcFmul_rounds pow2 y g ! k) \<longleftrightarrow> snd (calcFmul_from pow2 y g) = y + k) \<and>
     (round_breaks (calcFmul_rounds pow2 y g ! k) \<longrightarrow> Suc k = length (calcFmul_rounds pow2 y g))"
proof (induction pow2 y g arbitrary: k rule: calcFmul_rounds.induct)
  case (1 pow2 y g)
  let ?g1 = "calcFmul_round pow2 y g"
  consider (stop) "\<not> y < pow2" | (brk) "y < pow2" "round_breaks ?g1"
    | (cont) "y < pow2" "\<not> round_breaks ?g1" by blast
  then show ?case
  proof cases
    case stop
    with "1.prems" show ?thesis unfolding calcFmul_rounds_cases(1) [OF stop] by simp
  next
    case brk
    from "1.prems" have "k = 0" unfolding calcFmul_rounds_cases(2) [OF brk] by simp
    with brk(2) show ?thesis
      unfolding calcFmul_rounds_cases(2) [OF brk] calcFmul_from_cases(2) [OF brk] by simp
  next
    case cont
    show ?thesis
    proof (cases k)
      case 0
      have "Suc y \<le> snd (calcFmul_from pow2 (Suc y) ?g1)" by (rule snd_calcFmul_from_ge)
      with 0 cont(2) show ?thesis
        unfolding calcFmul_rounds_cases(3) [OF cont] calcFmul_from_cases(3) [OF cont] by simp
    next
      case (Suc k')
      with "1.prems" have "k' < length (calcFmul_rounds pow2 (Suc y) ?g1)"
        unfolding calcFmul_rounds_cases(3) [OF cont] by simp
      from "1.IH" [OF cont(1) refl cont(2) this] Suc show ?thesis
        unfolding calcFmul_rounds_cases(3) [OF cont] calcFmul_from_cases(3) [OF cont] by simp
    qed
  qed
qed

lemma round_breaks_plain:
  "round_breaks g \<longleftrightarrow>
     length (unsolv g) < 10 \<or>
     real (length (unsolv g)) / real (length (unsolv g) + length (solv g)) < 0.001"
  by (auto simp: round_breaks_def delta_def sigma_def unsolved_ratio_def)

text \<open>Counting the acceptances of a round.\<close>

lemma foldl_count:
  fixes m :: "'s \<Rightarrow> nat"
  assumes "\<And>s x. m (f s x) \<le> m s + c"
  shows "m (foldl f s xs) \<le> m s + c * length xs"
proof (induction xs arbitrary: s)
  case Nil
  show ?case by simp
next
  case (Cons x xs)
  have "m (foldl f (f s x) xs) \<le> m (f s x) + c * length xs" by (rule Cons.IH)
  also have "\<dots> \<le> (m s + c) + c * length xs" using assms [of s x] by simp
  finally show ?case by simp
qed

lemma length_solv_try_xz: "length (solv (try_xz y BB x g z)) \<le> length (solv g) + 1"
  by (simp add: try_xz_eq)

lemma length_solv_solve_block:
  "length (solv (solve_block pow2 y g BB)) \<le> length (solv g) + (pow2 - 1) * (pow2 - 1)"
proof -
  have z: "\<And>s x. length (solv (z_loop pow2 y BB s x)) \<le> length (solv s) + (pow2 - 1)"
  proof -
    fix s x
    have "length (solv (foldl (try_xz y BB x) s [1..<pow2]))
            \<le> length (solv s) + 1 * length [1..<pow2]"
      by (rule foldl_count [where m = "\<lambda>s. length (solv s)"]) (rule length_solv_try_xz)
    then show "length (solv (z_loop pow2 y BB s x)) \<le> length (solv s) + (pow2 - 1)"
      by (simp add: z_loop_def)
  qed
  have "length (solv (x_loop pow2 y BB g)) \<le> length (solv g) + (pow2 - 1) * length [1..<pow2]"
    unfolding x_loop_def
    by (rule foldl_count [where m = "\<lambda>s. length (solv s)"]) (rule z)
  then show ?thesis by (simp add: solve_block_def Let_def)
qed

lemma length_solv_calcFmul_round:
  "length (solv (calcFmul_round pow2 y g)) \<le> (pow2 - 1) * (pow2 - 1) * length (multiBBS g)"
proof -
  have "length (solv (calcFmul_round pow2 y g))
          \<le> length (solv (clear_round g)) + (pow2 - 1) * (pow2 - 1) * length (multiBBS g)"
    unfolding calcFmul_round_def
    by (rule foldl_count [where m = "\<lambda>s. length (solv s)"]) (rule length_solv_solve_block)
  then show ?thesis by (simp add: clear_round_def)
qed

text \<open>
  Up to \<open>MAP_SIZE_POW2 = 32\<close> the quotient of a round is at least 1/962 whenever
  \<open>unsolv\<close> is not empty, so the comparison with \<open>sigma\<close> never decides the test: a round
  ends the sweep exactly when \<open>multiBBS\<close> has fewer than ten blocks.
\<close>

lemma round_breaks_iff_few_blocks:
  assumes "pow2 \<le> 32"
  shows "round_breaks (calcFmul_round pow2 y g) \<longleftrightarrow> length (multiBBS g) < 10"
proof -
  let ?r = "calcFmul_round pow2 y g"
  let ?u = "length (multiBBS g)" and ?s = "length (solv ?r)"
  have u: "length (unsolv ?r) = ?u" by (simp add: unsolv_calcFmul_round)
  have "(pow2 - 1) * (pow2 - 1) \<le> 31 * 31"
    using assms by (intro mult_le_mono) simp_all
  then have "(pow2 - 1) * (pow2 - 1) * ?u \<le> 961 * ?u" by simp
  with length_solv_calcFmul_round [of pow2 y g] have s: "?s \<le> 961 * ?u" by linarith
  have key: "\<not> real ?u / real (?u + ?s) < 0.001" if "10 \<le> ?u"
  proof -
    from that have pos: "0 < real (?u + ?s)" by simp
    have "real (?u + ?s) \<le> 1000 * real ?u" using s by simp
    then have "1 / 1000 \<le> real ?u / real (?u + ?s)"
      using pos by (simp add: field_simps)
    then show ?thesis by simp
  qed
  show ?thesis
  proof (cases "?u < 10")
    case True
    then show ?thesis unfolding round_breaks_plain u by blast
  next
    case False
    then have "10 \<le> ?u" by simp
    from key [OF this] False show ?thesis unfolding round_breaks_plain u by blast
  qed
qed

subsection \<open>The elements of \<open>hashes\<close>\<close>

lemma xor_nat_less:
  fixes a b :: nat
  assumes "a < 2 ^ n" and "b < 2 ^ n"
  shows "a XOR b < 2 ^ n"
proof -
  from assms have "take_bit n a = a" and "take_bit n b = b"
    by (simp_all add: take_bit_nat_eq_self_iff)
  then have "take_bit n (a XOR b) = a XOR b" by (simp only: take_bit_xor)
  then show ?thesis by (simp only: take_bit_nat_eq_self_iff)
qed

lemma edgeHash_below:
  assumes cur: "unat cur < 2 ^ pow2" and kp: "unat kp < 2 ^ pow2"
    and y: "1 \<le> y" and z: "z < pow2"
  shows "unat (edgeHash cur kp x y z) < 2 ^ pow2"
proof (cases "pow2 < 32")
  case False
  have "unat (edgeHash cur kp x y z) < 2 ^ 32"
    using unsigned_less [of "edgeHash cur kp x y z"] by simp
  also have "(2::nat) ^ 32 \<le> 2 ^ pow2"
    using False by (intro power_increasing) simp_all
  finally show ?thesis .
next
  case True
  with z have "z < 32" by simp
  then have z31: "z < 2 ^ 31" by simp
  have e: "unat (edgeHash cur kp x y z) = drop_bit x (unat cur) XOR (drop_bit y (unat kp) + z)"
    using unat_edgeHash [OF y z31] by (simp add: spec_hash_def)
  obtain q where q: "pow2 = Suc q" using z by (cases pow2) simp_all
  have "drop_bit x (unat cur) \<le> unat cur"
    by (simp add: drop_bit_eq_div)
  with cur have a: "drop_bit x (unat cur) < 2 ^ pow2" by simp
  have "(2::nat) ^ 1 \<le> 2 ^ y"
    using y by (intro power_increasing) simp_all
  then have "unat kp div 2 ^ y \<le> unat kp div 2 ^ 1"
    by (intro div_le_mono2) simp_all
  also have "\<dots> < 2 ^ q" using kp q by simp
  finally have "drop_bit y (unat kp) < 2 ^ q" by (simp add: drop_bit_eq_div)
  moreover have "z \<le> 2 ^ q"
  proof -
    have "q < 2 ^ q" by (rule less_exp)
    with z q show ?thesis by linarith
  qed
  ultimately have b: "drop_bit y (unat kp) + z < 2 ^ pow2" using q by simp
  from xor_nat_less [OF a b] e show ?thesis by simp
qed

lemma key_of_below: "keys_below (2 ^ pow2) g \<Longrightarrow> unat (key_of g b) < 2 ^ pow2"
  by (cases "keys g b") (auto simp: keys_below_def key_of_def)

lemma slots_below_try_xz:
  assumes "keys_below (2 ^ pow2) g" and "slots_below (2 ^ pow2) g" and "1 \<le> y" and "z < pow2"
  shows "slots_below (2 ^ pow2) (try_xz y BB x g z)"
proof -
  have "unat h < 2 ^ pow2" if "h \<in> set (cand_list g BB x y z)" for h
    using that assms(1,3,4) by (auto simp: cand_list_def intro!: edgeHash_below key_of_below)
  with assms(2) show ?thesis
    by (auto simp: try_xz_eq slots_below_def)
qed

lemma keys_below_same_cfg: "same_cfg g g' \<Longrightarrow> keys_below m g' = keys_below m g"
  by (simp add: same_cfg_def keys_below_def)

lemma slots_below_solve_block:
  assumes "keys_below (2 ^ pow2) g" and "slots_below (2 ^ pow2) g" and "1 \<le> y"
  shows "slots_below (2 ^ pow2) (solve_block pow2 y g BB)"
proof -
  have "same_cfg g (x_loop pow2 y BB g) \<and> slots_below (2 ^ pow2) (x_loop pow2 y BB g)"
  proof (rule x_loop_invariant [where P = "\<lambda>s. same_cfg g s \<and> slots_below (2 ^ pow2) s"])
    show "same_cfg g g \<and> slots_below (2 ^ pow2) g" using assms(2) by simp
  next
    fix s x z
    assume s: "same_cfg g s \<and> slots_below (2 ^ pow2) s" and z: "z \<in> {1..<pow2}"
    then have "keys_below (2 ^ pow2) s"
      using assms(1) keys_below_same_cfg [of g s "2 ^ pow2"] by simp
    with s z assms(3) have "slots_below (2 ^ pow2) (try_xz y BB x s z)"
      by (intro slots_below_try_xz) simp_all
    moreover have "same_cfg g (try_xz y BB x s z)"
      using s by (intro same_cfg_trans [OF _ same_cfg_try_xz]) simp
    ultimately show "same_cfg g (try_xz y BB x s z) \<and> slots_below (2 ^ pow2) (try_xz y BB x s z)"
      by simp
  qed
  then show ?thesis by (simp add: solve_block_def Let_def slots_below_def)
qed

lemma slots_below_calcFmul_round:
  assumes "keys_below (2 ^ pow2) g" and "1 \<le> y"
  shows "slots_below (2 ^ pow2) (calcFmul_round pow2 y g)"
proof -
  let ?P = "\<lambda>s. same_cfg g s \<and> slots_below (2 ^ pow2) s"
  have "?P (foldl (solve_block pow2 y) (clear_round g) (multiBBS g))"
  proof (rule foldl_invariant [where P = ?P])
    show "?P (clear_round g)"
      by (simp add: same_cfg_clear_round) (simp add: clear_round_def slots_below_def)
  next
    fix s BB
    assume s: "?P s"
    then have "keys_below (2 ^ pow2) s"
      using assms(1) keys_below_same_cfg [of g s "2 ^ pow2"] by simp
    with s assms(2) have "slots_below (2 ^ pow2) (solve_block pow2 y s BB)"
      by (intro slots_below_solve_block) simp_all
    moreover have "same_cfg g (solve_block pow2 y s BB)"
      using s by (intro same_cfg_trans [OF _ same_cfg_solve_block]) simp
    ultimately show "?P (solve_block pow2 y s BB)" by simp
  qed
  then show ?thesis by (simp add: calcFmul_round_def)
qed

lemma slots_below_calcFmul:
  fixes g :: "'b globals"
  assumes "keys_below (2 ^ pow2) g" and "slots_below (2 ^ pow2) g"
  shows "slots_below (2 ^ pow2) (calcFmul pow2 g)"
proof -
  let ?P = "\<lambda>s. same_cfg g s \<and> slots_below (2 ^ pow2) s"
  have "?P (calcFmul pow2 g)"
  proof (rule calcFmul_invariant [where P = ?P])
    show "?P g" using assms(2) by simp
  next
    fix y :: nat and s :: "'b globals"
    assume s: "?P s" and y: "1 \<le> y"
    then have "keys_below (2 ^ pow2) s"
      using assms(1) keys_below_same_cfg [of g s "2 ^ pow2"] by simp
    with y have "slots_below (2 ^ pow2) (calcFmul_round pow2 y s)"
      by (intro slots_below_calcFmul_round)
    moreover have "same_cfg g (calcFmul_round pow2 y s)"
      using s by (intro same_cfg_trans [OF _ same_cfg_calcFmul_round]) simp
    ultimately show "?P (calcFmul_round pow2 y s)" by simp
  qed
  then show ?thesis ..
qed

subsection \<open>The builders only add slots below \<open>MAP_SIZE\<close>\<close>

lemma first_free_cases:
  obtains (none) "first_free m hs 0 = None"
  | (some) j where "first_free m hs 0 = Some j" "j < m" "of_nat j \<notin> hs"
proof (cases "first_free m hs 0")
  case None
  then show ?thesis by (rule none)
next
  case (Some j)
  then show ?thesis using some [of j] by (simp add: first_free_Some)
qed

lemma unat_slot_less: "j < m \<Longrightarrow> unat (of_nat j :: u32) < m"
  by (rule le_less_trans [of _ j]) (simp_all add: unat_of_nat)

lemma assign_edge_cases:
  obtains (none) "assign_edge pow2 cur g p = g"
  | (some) j where "j < MAP_SIZE pow2" "of_nat j \<notin> hashes g"
      "assign_edge pow2 cur g p =
         g \<lparr> hashMap := (hashMap g)((cur, key_of g p) \<mapsto> of_nat j),
             hashes := insert (of_nat j) (hashes g) \<rparr>"
proof (cases rule: first_free_cases [of "MAP_SIZE pow2" "hashes g"])
  case none
  then have "assign_edge pow2 cur g p = g" by (simp add: assign_edge_def)
  then show ?thesis by (rule that(1))
next
  case (some j)
  from some(1) have "assign_edge pow2 cur g p =
         g \<lparr> hashMap := (hashMap g)((cur, key_of g p) \<mapsto> of_nat j),
             hashes := insert (of_nat j) (hashes g) \<rparr>"
    by (simp add: assign_edge_def Let_def)
  with some(2,3) show ?thesis by (rule that(2))
qed

lemma assign_single_cases:
  obtains (none) "assign_single pow2 g BB = g"
  | (some) j where "j < MAP_SIZE pow2" "of_nat j \<notin> hashes g"
      "assign_single pow2 g BB =
         g \<lparr> singleMap := (singleMap g)(key_of g BB \<mapsto> of_nat j),
             hashes := insert (of_nat j) (hashes g) \<rparr>"
proof (cases rule: first_free_cases [of "MAP_SIZE pow2" "hashes g"])
  case none
  then have "assign_single pow2 g BB = g" by (simp add: assign_single_def)
  then show ?thesis by (rule that(1))
next
  case (some j)
  from some(1) have "assign_single pow2 g BB =
         g \<lparr> singleMap := (singleMap g)(key_of g BB \<mapsto> of_nat j),
             hashes := insert (of_nat j) (hashes g) \<rparr>"
    by (simp add: assign_single_def Let_def)
  with some(2,3) show ?thesis by (rule that(2))
qed

lemma hashes_assign_edge: "hashes g \<subseteq> hashes (assign_edge pow2 cur g p)"
  by (cases rule: assign_edge_cases [of pow2 cur g p]) auto

lemma same_cfg_assign_edge: "same_cfg g (assign_edge pow2 cur g p)"
  by (cases rule: assign_edge_cases [of pow2 cur g p]) (simp_all add: same_cfg_def)

lemma slots_below_assign_edge:
  assumes "slots_below (MAP_SIZE pow2) g"
  shows "slots_below (MAP_SIZE pow2) (assign_edge pow2 cur g p)"
proof (cases rule: assign_edge_cases [of pow2 cur g p])
  case none
  with assms show ?thesis by simp
next
  case (some j)
  from some(1) have "unat (of_nat j :: u32) < MAP_SIZE pow2" by (rule unat_slot_less)
  with assms show ?thesis unfolding some(3) by (auto simp: slots_below_def)
qed

lemma hashes_assign_single: "hashes g \<subseteq> hashes (assign_single pow2 g BB)"
  by (cases rule: assign_single_cases [of pow2 g BB]) auto

lemma same_cfg_assign_single: "same_cfg g (assign_single pow2 g BB)"
  by (cases rule: assign_single_cases [of pow2 g BB]) (simp_all add: same_cfg_def)

lemma slots_below_assign_single:
  assumes "slots_below (MAP_SIZE pow2) g"
  shows "slots_below (MAP_SIZE pow2) (assign_single pow2 g BB)"
proof (cases rule: assign_single_cases [of pow2 g BB])
  case none
  with assms show ?thesis by simp
next
  case (some j)
  from some(1) have "unat (of_nat j :: u32) < MAP_SIZE pow2" by (rule unat_slot_less)
  with assms show ?thesis unfolding some(3) by (auto simp: slots_below_def)
qed

lemma foldl_grows:
  assumes "\<And>s x. hashes s \<subseteq> hashes (f s x)"
  shows "hashes s \<subseteq> hashes (foldl f s xs)"
proof (induction xs arbitrary: s)
  case Nil
  show ?case by simp
next
  case (Cons x xs)
  from assms [of s x] Cons.IH [of "f s x"] show ?case by auto
qed

lemma hashes_hash_block: "hashes g \<subseteq> hashes (hash_block pow2 g BB)"
  unfolding hash_block_def by (rule foldl_grows) (rule hashes_assign_edge)

lemma slots_below_hash_block:
  "slots_below (MAP_SIZE pow2) g \<Longrightarrow> slots_below (MAP_SIZE pow2) (hash_block pow2 g BB)"
  unfolding hash_block_def
  by (rule foldl_invariant [where P = "slots_below (MAP_SIZE pow2)"])
     (simp_all add: slots_below_assign_edge)

lemma hashes_blocks_prefix:
  "hashes (foldl (hash_block pow2) g (take n bs)) \<subseteq> hashes (foldl (hash_block pow2) g bs)"
proof -
  have "foldl (hash_block pow2) g bs
          = foldl (hash_block pow2) (foldl (hash_block pow2) g (take n bs)) (drop n bs)"
    using foldl_append [of _ g "take n bs" "drop n bs"] by simp
  then show ?thesis
    using foldl_grows [of "hash_block pow2", OF hashes_hash_block] by simp
qed

lemma hashes_singles_prefix:
  "hashes (foldl (assign_single pow2) g (take n bs)) \<subseteq> hashes (foldl (assign_single pow2) g bs)"
proof -
  have "foldl (assign_single pow2) g bs
          = foldl (assign_single pow2) (foldl (assign_single pow2) g (take n bs)) (drop n bs)"
    using foldl_append [of _ g "take n bs" "drop n bs"] by simp
  then show ?thesis
    using foldl_grows [of "assign_single pow2", OF hashes_assign_single] by simp
qed

lemma hashes_calcFhash: "hashes g \<subseteq> hashes (calcFhash pow2 g)"
  using foldl_grows [of "hash_block pow2" "g \<lparr> hashMap := Map.empty \<rparr>" "unsolv g",
          OF hashes_hash_block]
  by (simp add: calcFhash_def)

lemma hashes_calcSingle: "hashes g \<subseteq> hashes (calcSingle pow2 g)"
  using foldl_grows [of "assign_single pow2" "g \<lparr> singleMap := Map.empty \<rparr>" "singleBBS g",
          OF hashes_assign_single]
  by (simp add: calcSingle_def)

lemma slots_below_calcFhash:
  assumes "slots_below (MAP_SIZE pow2) g"
  shows "slots_below (MAP_SIZE pow2) (calcFhash pow2 g)"
  unfolding calcFhash_def
proof (rule foldl_invariant [where P = "slots_below (MAP_SIZE pow2)"])
  show "slots_below (MAP_SIZE pow2) (g \<lparr> hashMap := Map.empty \<rparr>)"
    using assms by (simp add: slots_below_def)
qed (rule slots_below_hash_block)

lemma slots_below_calcSingle:
  assumes "slots_below (MAP_SIZE pow2) g"
  shows "slots_below (MAP_SIZE pow2) (calcSingle pow2 g)"
  unfolding calcSingle_def
proof (rule foldl_invariant [where P = "slots_below (MAP_SIZE pow2)"])
  show "slots_below (MAP_SIZE pow2) (g \<lparr> singleMap := Map.empty \<rparr>)"
    using assms by (simp add: slots_below_def)
qed (rule slots_below_assign_single)

lemma card_slots_below:
  assumes "slots_below m g"
  shows "card (hashes g) \<le> m"
proof -
  have "inj_on unat (hashes g)"
    by (rule inj_on_subset [OF inj_unsigned]) simp
  then have "card (hashes g) = card (unat ` hashes g)" by (simp add: card_image)
  also have "\<dots> \<le> card {..<m}"
    using assms by (intro card_mono) (auto simp: slots_below_def)
  finally show ?thesis by simp
qed

subsection \<open>No slot has two owners\<close>

lemma tables_calcFmul_round:
  "hashMap (calcFmul_round pow2 y g) = hashMap g \<and> singleMap (calcFmul_round pow2 y g) = singleMap g"
proof -
  let ?P = "\<lambda>s. hashMap s = hashMap g \<and> singleMap s = singleMap g"
  have step: "?P (solve_block pow2 y s BB)" if "?P s" for s BB
  proof -
    have "?P (x_loop pow2 y BB s)"
      by (rule x_loop_invariant [where P = ?P]) (simp_all add: that tables_try_xz)
    then show ?thesis by (simp add: solve_block_def Let_def)
  qed
  show ?thesis
    unfolding calcFmul_round_def
    by (rule foldl_invariant [where P = ?P]) (simp_all add: clear_round_def step)
qed

lemma tables_calcFmul:
  "hashMap (calcFmul pow2 g) = hashMap g \<and> singleMap (calcFmul pow2 g) = singleMap g"
  by (rule calcFmul_invariant [where P = "\<lambda>s. hashMap s = hashMap g \<and> singleMap s = singleMap g"])
     (simp_all add: tables_calcFmul_round)

lemma run_inv_calcFmul_load:
  "run_inv (calcFmul pow2 (load_cfg singles multis ps ks))"
proof -
  let ?g = "calcFmul pow2 (load_cfg singles multis ps ks)"
  have "hashMap ?g = Map.empty" and "singleMap ?g = Map.empty"
    using tables_calcFmul [of pow2 "load_cfg singles multis ps ks"]
    by (simp_all add: load_cfg_def init_globals_def)
  then have "table_inv ?g" by (simp add: table_inv_def)
  moreover have "solver_inv ?g"
    by (rule solver_inv_calcFmul) (rule solver_inv_load_cfg)
  ultimately show ?thesis by (simp add: run_inv_def)
qed

lemma solver_inv_grow:
  assumes "solver_inv g" and "params g' = params g" and "solv g' = solv g"
    and "cand_list g' = cand_list g" and "hashes g \<subseteq> hashes g'"
  shows "solver_inv g'"
  using assms unfolding solver_inv_def by (simp only:) blast

lemma table_inv_hashMap_in: "table_inv g \<Longrightarrow> hashMap g k = Some v \<Longrightarrow> v \<in> hashes g"
  by (cases k) (auto simp: table_inv_def)

lemma table_inv_singleMap_in: "table_inv g \<Longrightarrow> singleMap g k = Some v \<Longrightarrow> v \<in> hashes g"
  by (auto simp: table_inv_def)

lemma table_inv_hashMap_inj:
  "table_inv g \<Longrightarrow> hashMap g k = Some v \<Longrightarrow> hashMap g k' = Some v \<Longrightarrow> k = k'"
  by (cases k; cases k') (auto simp: table_inv_def)

lemma table_inv_singleMap_inj:
  "table_inv g \<Longrightarrow> singleMap g k = Some v \<Longrightarrow> singleMap g k' = Some v \<Longrightarrow> k = k'"
  by (auto simp: table_inv_def)

lemma table_inv_tables_apart:
  "table_inv g \<Longrightarrow> hashMap g k = Some v \<Longrightarrow> singleMap g k' = Some v \<Longrightarrow> False"
  by (cases k) (auto simp: table_inv_def)

lemma table_inv_hashMap_apart:
  "table_inv g \<Longrightarrow> params g B = Some (x, y, z) \<Longrightarrow> hashMap g k = Some v
     \<Longrightarrow> v \<in> set (cand_list g B x y z) \<Longrightarrow> False"
  by (cases k) (auto simp: table_inv_def)

lemma table_inv_singleMap_apart:
  "table_inv g \<Longrightarrow> params g B = Some (x, y, z) \<Longrightarrow> singleMap g k = Some v
     \<Longrightarrow> v \<in> set (cand_list g B x y z) \<Longrightarrow> False"
  by (auto simp: table_inv_def)

lemmas table_inv_facts =
  table_inv_hashMap_in table_inv_singleMap_in table_inv_hashMap_inj table_inv_singleMap_inj
  table_inv_tables_apart table_inv_hashMap_apart table_inv_singleMap_apart

lemma run_inv_assign_edge:
  assumes "run_inv g"
  shows "run_inv (assign_edge pow2 cur g p)"
proof (cases rule: assign_edge_cases [of pow2 cur g p])
  case none
  with assms show ?thesis by simp
next
  case (some j)
  let ?k0 = "(cur, key_of g p)"
  let ?g' = "g \<lparr> hashMap := (hashMap g)(?k0 \<mapsto> of_nat j),
                  hashes := insert (of_nat j) (hashes g) \<rparr>"
  from assms have si: "solver_inv g" and ti: "table_inv g" by (simp_all add: run_inv_def)
  note t = table_inv_facts [OF ti]
  have c: "of_nat j \<notin> set (cand_list g B x y z)" if "params g B = Some (x, y, z)" for B x y z
    using si that some(2) unfolding solver_inv_def by blast
  have "solver_inv ?g'"
    by (rule solver_inv_grow [OF si]) auto
  moreover have "table_inv ?g'"
    unfolding table_inv_def
  proof (intro conjI allI impI)
    fix k v assume "hashMap ?g' k = Some v"
    then show "v \<in> hashes ?g'" using t(1) [of k v] by (cases "k = ?k0") auto
  next
    fix k v assume "singleMap ?g' k = Some v"
    then show "v \<in> hashes ?g'" using t(2) [of k v] by auto
  next
    fix k k' v assume "hashMap ?g' k = Some v" and "hashMap ?g' k' = Some v"
    then show "k = k'"
      using t(1) [of k v] t(1) [of k' v] t(3) [of k v k'] some(2)
      by (cases "k = ?k0"; cases "k' = ?k0") auto
  next
    fix k k' v assume "singleMap ?g' k = Some v" and "singleMap ?g' k' = Some v"
    then show "k = k'" using t(4) [of k v k'] by auto
  next
    fix k k' v assume "hashMap ?g' k = Some v"
    then show "singleMap ?g' k' \<noteq> Some v"
      using t(2) [of k' v] t(5) [of k v k'] some(2) by (cases "k = ?k0") auto
  next
    fix B x y z k v assume "params ?g' B = Some (x, y, z)" and "hashMap ?g' k = Some v"
    then show "v \<notin> set (cand_list ?g' B x y z)"
      using t(6) [of B x y z k v] c [of B x y z] by (cases "k = ?k0") auto
  next
    fix B x y z k v assume "params ?g' B = Some (x, y, z)" and "singleMap ?g' k = Some v"
    then show "v \<notin> set (cand_list ?g' B x y z)"
      using t(7) [of B x y z k v] by auto
  qed
  ultimately show ?thesis unfolding some(3) by (simp add: run_inv_def)
qed

lemma run_inv_assign_single:
  assumes "run_inv g"
  shows "run_inv (assign_single pow2 g BB)"
proof (cases rule: assign_single_cases [of pow2 g BB])
  case none
  with assms show ?thesis by simp
next
  case (some j)
  let ?k0 = "key_of g BB"
  let ?g' = "g \<lparr> singleMap := (singleMap g)(?k0 \<mapsto> of_nat j),
                  hashes := insert (of_nat j) (hashes g) \<rparr>"
  from assms have si: "solver_inv g" and ti: "table_inv g" by (simp_all add: run_inv_def)
  note t = table_inv_facts [OF ti]
  have c: "of_nat j \<notin> set (cand_list g B x y z)" if "params g B = Some (x, y, z)" for B x y z
    using si that some(2) unfolding solver_inv_def by blast
  have "solver_inv ?g'"
    by (rule solver_inv_grow [OF si]) auto
  moreover have "table_inv ?g'"
    unfolding table_inv_def
  proof (intro conjI allI impI)
    fix k v assume "hashMap ?g' k = Some v"
    then show "v \<in> hashes ?g'" using t(1) [of k v] by auto
  next
    fix k v assume "singleMap ?g' k = Some v"
    then show "v \<in> hashes ?g'" using t(2) [of k v] by (cases "k = ?k0") auto
  next
    fix k k' v assume "hashMap ?g' k = Some v" and "hashMap ?g' k' = Some v"
    then show "k = k'" using t(3) [of k v k'] by auto
  next
    fix k k' v assume "singleMap ?g' k = Some v" and "singleMap ?g' k' = Some v"
    then show "k = k'"
      using t(2) [of k v] t(2) [of k' v] t(4) [of k v k'] some(2)
      by (cases "k = ?k0"; cases "k' = ?k0") auto
  next
    fix k k' v assume "hashMap ?g' k = Some v"
    then show "singleMap ?g' k' \<noteq> Some v"
      using t(1) [of k v] t(5) [of k v k'] some(2) by (cases "k' = ?k0") auto
  next
    fix B x y z k v assume "params ?g' B = Some (x, y, z)" and "hashMap ?g' k = Some v"
    then show "v \<notin> set (cand_list ?g' B x y z)"
      using t(6) [of B x y z k v] by auto
  next
    fix B x y z k v assume "params ?g' B = Some (x, y, z)" and "singleMap ?g' k = Some v"
    then show "v \<notin> set (cand_list ?g' B x y z)"
      using t(7) [of B x y z k v] c [of B x y z] by (cases "k = ?k0") auto
  qed
  ultimately show ?thesis unfolding some(3) by (simp add: run_inv_def)
qed

lemma run_inv_clear_hashMap: "run_inv g \<Longrightarrow> run_inv (g \<lparr> hashMap := Map.empty \<rparr>)"
  by (simp add: run_inv_def solver_inv_def table_inv_def)

lemma run_inv_clear_singleMap: "run_inv g \<Longrightarrow> run_inv (g \<lparr> singleMap := Map.empty \<rparr>)"
  by (simp add: run_inv_def solver_inv_def table_inv_def)

lemma run_inv_calcFhash: "run_inv g \<Longrightarrow> run_inv (calcFhash pow2 g)"
  unfolding calcFhash_def hash_block_def
  by (rule foldl_invariant [where P = run_inv], erule run_inv_clear_hashMap,
      rule foldl_invariant [where P = run_inv], assumption, erule run_inv_assign_edge)

lemma run_inv_calcSingle: "run_inv g \<Longrightarrow> run_inv (calcSingle pow2 g)"
  unfolding calcSingle_def
  by (rule foldl_invariant [where P = run_inv], erule run_inv_clear_singleMap,
      erule run_inv_assign_single)

lemma run_inv_run_phases: "run_inv (run_phases pow2 (load_cfg singles multis ps ks))"
  unfolding run_phases_def
  by (intro run_inv_calcSingle run_inv_calcFhash run_inv_calcFmul_load)

lemma slot_of_SolvedEdge:
  "slot_of g (SolvedEdge B i) = Some s \<longleftrightarrow>
     (\<exists>x y z. params g B = Some (x, y, z) \<and> i < length (cand_list g B x y z) \<and>
        s = cand_list g B x y z ! i)"
  by (auto simp: cand_list_def split: option.splits)

lemma run_inv_no_shared_slot:
  assumes "run_inv g" and "slot_of g a = Some s" and "slot_of g b = Some s"
  shows "a = b"
proof -
  from assms(1) have si: "solver_inv g" and ti: "table_inv g" by (simp_all add: run_inv_def)
  note t = table_inv_facts [OF ti]
  have solved_solved: "B = B' \<and> i = i'"
    if "slot_of g (SolvedEdge B i) = Some s" "slot_of g (SolvedEdge B' i') = Some s" for B i B' i'
  proof -
    from that obtain x y z x' y' z' where
      p: "params g B = Some (x, y, z)" "i < length (cand_list g B x y z)"
         "s = cand_list g B x y z ! i"
      and p': "params g B' = Some (x', y', z')" "i' < length (cand_list g B' x' y' z')"
         "s = cand_list g B' x' y' z' ! i'"
      unfolding slot_of_SolvedEdge by blast
    have m: "s \<in> set (cand_list g B x y z)" "s \<in> set (cand_list g B' x' y' z')"
      using nth_mem [OF p(2)] nth_mem [OF p'(2)] p(3) p'(3) by metis+
    have "B = B'"
    proof (rule ccontr)
      assume "B \<noteq> B'"
      with si p(1) p'(1) have "set (cand_list g B x y z) \<inter> set (cand_list g B' x' y' z') = {}"
        unfolding solver_inv_def by blast
      with m show False by blast
    qed
    with p(1) p'(1) have e: "x' = x" "y' = y" "z' = z" by simp_all
    from si p(1) have "distinct (cand_list g B x y z)"
      unfolding solver_inv_def by blast
    moreover have "cand_list g B x y z ! i = cand_list g B x y z ! i'"
      using p(3) p'(3) \<open>B = B'\<close> e by metis
    moreover have "i' < length (cand_list g B x y z)"
      using p'(2) \<open>B = B'\<close> e by metis
    ultimately have "i = i'"
      using p(2) by (simp add: nth_eq_iff_index_eq)
    with \<open>B = B'\<close> show ?thesis by simp
  qed
  have solved_table: False
    if "slot_of g (SolvedEdge B i) = Some s" "hashMap g k = Some s \<or> singleMap g k' = Some s"
    for B i k k'
  proof -
    from that(1) obtain x y z where
      p: "params g B = Some (x, y, z)" "i < length (cand_list g B x y z)"
         "s = cand_list g B x y z ! i"
      unfolding slot_of_SolvedEdge by blast
    then have "s \<in> set (cand_list g B x y z)"
      using nth_mem [of i "cand_list g B x y z"] by metis
    with p(1) that(2) t(6) [of B x y z k s] t(7) [of B x y z k' s] show False by blast
  qed
  show ?thesis
  proof (cases a)
    case a: (SolvedEdge B i)
    show ?thesis
    proof (cases b)
      case (SolvedEdge B' i')
      with a assms(2,3) solved_solved [of B i B' i'] show ?thesis by simp
    next
      case (FallbackEdge k)
      with a assms(2,3) solved_table [of B i k] show ?thesis by simp
    next
      case (SingleBlock k)
      with a assms(2,3) solved_table [of B i _ k] show ?thesis by simp
    qed
  next
    case a: (FallbackEdge k)
    show ?thesis
    proof (cases b)
      case (SolvedEdge B' i')
      with a assms(2,3) solved_table [of B' i' k] show ?thesis by simp
    next
      case (FallbackEdge k')
      with a assms(2,3) t(3) [of k s k'] show ?thesis by simp
    next
      case (SingleBlock k')
      with a assms(2,3) t(5) [of k s k'] show ?thesis by simp
    qed
  next
    case a: (SingleBlock k)
    show ?thesis
    proof (cases b)
      case (SolvedEdge B' i')
      with a assms(2,3) solved_table [of B' i' _ k] show ?thesis by simp
    next
      case (FallbackEdge k')
      with a assms(2,3) t(5) [of k' s k] show ?thesis by simp
    next
      case (SingleBlock k')
      with a assms(2,3) t(4) [of k s k'] show ?thesis by simp
    qed
  qed
qed

subsection \<open>The pass entry point\<close>

lemma drawn_after_refl: "drawn_after pow2 e st st"
  unfolding drawn_after_def by (auto intro: exI [of _ "[]"])

lemma drawn_after_trans:
  assumes "drawn_after pow2 e st st'" and "drawn_after pow2 e st' st''"
  shows "drawn_after pow2 e st st''"
proof -
  let ?f = "\<lambda>n. instrument (of_nat (AFL_R e n (MAP_SIZE pow2)))"
  from assms(1) obtain ns where le: "draws st \<le> draws st'"
    and ns: "sorted_wrt (<) ns" "\<forall>n. n \<in> set ns \<longrightarrow> draws st \<le> n \<and> n < draws st'"
      "map snd (inserted st') = map snd (inserted st) @ map ?f ns"
    unfolding drawn_after_def by blast
  from assms(2) obtain ms where le': "draws st' \<le> draws st''"
    and ms: "sorted_wrt (<) ms" "\<forall>n. n \<in> set ms \<longrightarrow> draws st' \<le> n \<and> n < draws st''"
      "map snd (inserted st'') = map snd (inserted st') @ map ?f ms"
    unfolding drawn_after_def by blast
  have "sorted_wrt (<) (ns @ ms)"
    using ns(1,2) ms(1,2) by (fastforce simp: sorted_wrt_append)
  moreover have "\<forall>n. n \<in> set (ns @ ms) \<longrightarrow> draws st \<le> n \<and> n < draws st''"
    using ns(2) ms(2) le le' by fastforce
  moreover have "map snd (inserted st'') = map snd (inserted st) @ map ?f (ns @ ms)"
    using ns(3) ms(3) by simp
  ultimately show ?thesis
    unfolding drawn_after_def using le le' by (intro conjI exI [of _ "ns @ ms"]) simp_all
qed

lemma drawn_after_visit_block: "drawn_after pow2 e st (visit_block pow2 e inst_ratio st BB)"
proof (cases "AFL_R e (draws st) 100 \<ge> unat inst_ratio")
  case True
  then have "visit_block pow2 e inst_ratio st BB = st \<lparr> draws := Suc (draws st) \<rparr>"
    by (simp add: visit_block_def Let_def)
  then show ?thesis
    unfolding drawn_after_def by (auto intro: exI [of _ "[]"])
next
  case False
  then have "visit_block pow2 e inst_ratio st BB =
      st \<lparr> draws := Suc (Suc (draws st)), inst_blocks := Suc (inst_blocks st),
           inserted := inserted st @
             [(BB, instrument (of_nat (AFL_R e (Suc (draws st)) (MAP_SIZE pow2))))] \<rparr>"
    by (simp add: visit_block_def Let_def)
  then show ?thesis
    unfolding drawn_after_def by (auto intro: exI [of _ "[Suc (draws st)]"])
qed

lemma drawn_after_module:
  "drawn_after pow2 e st
     (foldl (\<lambda>st F. foldl (visit_block pow2 e inst_ratio) st F) st M)"
proof (rule foldl_invariant [where P = "drawn_after pow2 e st"])
  show "drawn_after pow2 e st st" by (rule drawn_after_refl)
next
  fix s F
  assume s: "drawn_after pow2 e st s"
  show "drawn_after pow2 e st (foldl (visit_block pow2 e inst_ratio) s F)"
  proof (rule foldl_invariant [where P = "drawn_after pow2 e st"])
    show "drawn_after pow2 e st s" by (rule s)
  next
    fix s' BB
    assume "drawn_after pow2 e st s'"
    then show "drawn_after pow2 e st (visit_block pow2 e inst_ratio s' BB)"
      using drawn_after_visit_block by (rule drawn_after_trans)
  qed
qed

lemma runOnModule_fatal:
  "read_inst_ratio e = Inl err \<Longrightarrow> runOnModule pow2 e M g = Inl err"
  by (simp add: runOnModule_def)

lemma runOnModule_finished:
  assumes "read_inst_ratio e = Inr inst_ratio"
  shows "\<exists>r. (\<forall>g :: 'b globals. runOnModule pow2 e (M :: 'b list list) g = Inr (r, g)) \<and>
           instrumented r =
             inserted (foldl (\<lambda>st F. foldl (visit_block pow2 e inst_ratio) st F)
                         \<lparr> draws = 0, inst_blocks = 0, inserted = [] \<rparr> M)"
  using assms by (simp add: runOnModule_def Let_def)

lemma instrument_stores:
  "filter is_store (instrument cur_loc) =
     [CreateStore
        (CreateAdd
           (CreateLoad (CreateGEP (CreateLoad AFLMapPtr)
              (CreateXor (CreateZExt (CreateLoad AFLPrevLoc) 32) (ConstantInt 32 (unat cur_loc)))))
           (ConstantInt 8 1))
        (CreateGEP (CreateLoad AFLMapPtr)
           (CreateXor (CreateZExt (CreateLoad AFLPrevLoc) 32) (ConstantInt 32 (unat cur_loc)))),
      CreateStore (ConstantInt 32 (unat (drop_bit 1 cur_loc))) AFLPrevLoc]"
  by (simp add: instrument_def Let_def)

section \<open>The claims\<close>

subsection \<open>The solver\<close>

text \<open>
  C1. The claim: in a round, a block is accepted exactly once, at the first pair
  \<open>(x, z)\<close> whose hashes are pairwise distinct and disjoint from the hashes claimed so
  far; its parameters are that pair, it stands once in \<open>solv\<close>, and only that candidate's
  hashes are merged. The loops on \<open>x\<close> and \<open>z\<close> are not left after an acceptance, and
  on \<open>cfgA\<close> the round \<open>y = 1\<close> accepts block 0 twice: the first candidate \<open>(1, 1)\<close> is
  accepted with the hashes 0 and 1, and at the end of the round the block stands twice
  in \<open>solv\<close>, its parameters are \<open>(2, 1, 1)\<close> and four hashes are claimed.
\<close>

theorem C1_block_accepted_twice:
  "solv (try_xz 1 0 1 (clear_round cfgA) 1) = [0] \<and>
   params (try_xz 1 0 1 (clear_round cfgA) 1) 0 = Some (1, 1, 1) \<and>
   hashes (try_xz 1 0 1 (clear_round cfgA) 1) = {0, 1} \<and>
   solv (calcFmul_round 3 1 cfgA) = [0, 0] \<and>
   params (calcFmul_round 3 1 cfgA) 0 = Some (2, 1, 1) \<and>
   hashes (calcFmul_round 3 1 cfgA) = {0, 1, 2, 3}"
proof -
  have "try_xz 1 0 1 (clear_round cfgA) 1 =
          cfgA \<lparr> hashes := {0, 1}, tmpHashSet := {0, 1}, solv := [0],
                 params := [0 \<mapsto> (1, 1, 1)] \<rparr>"
    by (simp add: cfgA_def solver_defs) (auto simp: fun_eq_iff)
  then show ?thesis by (simp add: round_cfgA del: One_nat_def)
qed

text \<open>
  C4. Every block of \<open>multiBBS\<close> is appended to \<open>unsolv\<close> when its search is over,
  whether it was solved or not: at the end of a round \<open>unsolv\<close> is \<open>multiBBS\<close>, the solved
  blocks are among its elements, and (when the sweep runs at all, \<open>MAP_SIZE_POW2 \<ge> 2\<close>) the
  fallback builder goes through all of \<open>multiBBS\<close>.
\<close>

theorem C4_unsolv_is_multiBBS:
  "unsolv (solve_block pow2 y g BB) = unsolv g @ [BB] \<and>
   unsolv (calcFmul_round pow2 y g) = multiBBS g \<and>
   set (solv (calcFmul_round pow2 y g)) \<subseteq> set (unsolv (calcFmul_round pow2 y g)) \<and>
   (2 \<le> pow2 \<longrightarrow>
      unsolv (calcFmul pow2 g) = multiBBS g \<and>
      calcFhash pow2 (calcFmul pow2 g) =
        foldl (hash_block pow2) (calcFmul pow2 g \<lparr> hashMap := Map.empty \<rparr>) (multiBBS g))"
  by (simp add: unsolv_solve_block unsolv_calcFmul_round solv_calcFmul_round unsolv_calcFmul
        calcFhash_def)

theorem C4_unsolv_is_multiBBS_witness:
  "(2::nat) \<le> 3 \<and> multiBBS cfgA = [0] \<and> solv (calcFmul 3 cfgA) = [0, 0] \<and>
   unsolv (calcFmul 3 cfgA) = [0]"
proof -
  have "unsolv (calcFmul 3 cfgA) = multiBBS cfgA"
    using C4_unsolv_is_multiBBS [of 3 1 cfgA 0] by simp
  moreover have "multiBBS cfgA = [0]"
    by (simp add: cfgA_def load_cfg_def)
  moreover have "solv (calcFmul 3 cfgA) = [0, 0]"
    unfolding calcFmul_cfgA round_cfgA by simp
  ultimately show ?thesis by simp
qed

text \<open>
  C5. After the solver has run on freshly loaded globals, the blocks in \<open>solv\<close> are the
  blocks that have parameters, and under the parameters \<open>(x, y, z)\<close> of such a block the
  hashes of its incoming edges are as many distinct values as it has predecessors.
\<close>

theorem C5_solved_block_hashes_distinct:
  assumes "g = calcFmul pow2 (load_cfg singles multis ps ks)"
    and "params g B = Some (x, y, z)"
  shows "set (solv g) = dom (params g) \<and> B \<in> set (solv g) \<and>
         distinct (map (\<lambda>p. edgeHash (key_of g B) (key_of g p) x y z) (preds_of g B)) \<and>
         card ((\<lambda>p. edgeHash (key_of g B) (key_of g p) x y z) ` set (preds_of g B))
           = length (preds_of g B)"
proof -
  have inv: "solver_inv g"
    unfolding assms(1) by (rule solver_inv_calcFmul) (rule solver_inv_load_cfg)
  from inv assms(2) have d: "distinct (cand_list g B x y z)"
    unfolding solver_inv_def by blast
  from inv have s: "set (solv g) = dom (params g)"
    unfolding solver_inv_def by blast
  with assms(2) have "B \<in> set (solv g)" by blast
  moreover note s
  moreover from d have "distinct (map (\<lambda>p. edgeHash (key_of g B) (key_of g p) x y z) (preds_of g B))"
    by (simp add: cand_list_def)
  moreover from d have "card ((\<lambda>p. edgeHash (key_of g B) (key_of g p) x y z) ` set (preds_of g B))
           = length (preds_of g B)"
    using distinct_card [of "cand_list g B x y z"] by (simp add: cand_list_def)
  ultimately show ?thesis by blast
qed

theorem C5_solved_block_hashes_distinct_witness:
  "params (calcFmul 3 cfgA) 0 = Some (2, 1, 1) \<and> 0 \<in> set (solv (calcFmul 3 cfgA)) \<and>
   preds_of (calcFmul 3 cfgA) 0 = [1, 2] \<and>
   map (\<lambda>p. edgeHash (key_of (calcFmul 3 cfgA) 0) (key_of (calcFmul 3 cfgA) p) 2 1 1) [1, 2] = [3, 2] \<and>
   distinct (map (\<lambda>p. edgeHash (key_of (calcFmul 3 cfgA) 0) (key_of (calcFmul 3 cfgA) p) 2 1 1)
               (preds_of (calcFmul 3 cfgA) 0))"
proof -
  have p: "params (calcFmul 3 cfgA) 0 = Some (2, 1, 1)"
    unfolding calcFmul_cfgA round_cfgA by simp
  have c: "calcFmul 3 cfgA = calcFmul 3 (load_cfg [3, 4] [0] [0 \<mapsto> [1, 2]]
             [0 \<mapsto> 5, 1 \<mapsto> 2, 2 \<mapsto> 4, 3 \<mapsto> 1, 4 \<mapsto> 6])"
    by (simp add: cfgA_def)
  have e: "preds_of (calcFmul 3 cfgA) 0 = [1, 2] \<and>
    map (\<lambda>p. edgeHash (key_of (calcFmul 3 cfgA) 0) (key_of (calcFmul 3 cfgA) p) 2 1 1) [1, 2] = [3, 2]"
    unfolding calcFmul_cfgA round_cfgA
    by (simp add: cfgA_def load_cfg_def init_globals_def key_of_def preds_of_def edgeHash_def)
  from C5_solved_block_hashes_distinct [OF c p] p e show ?thesis by auto
qed

text \<open>
  C6. The hash that the solver inserts for the predecessor \<open>p\<close> of the block \<open>BB\<close> is
  \<open>edgeHash\<close> of the two keys, and for \<open>x\<close>, \<open>y\<close>, \<open>z\<close> in the range of the loops (with
  \<open>MAP_SIZE_POW2\<close> at most 32, so that the shifts stay below the width of the keys) its value
  is the formula of the specification on the values of the keys: the sum is the right
  operand of the exclusive or, and it does not wrap.
\<close>

theorem C6_edgeHash_is_spec_formula:
  assumes "pow2 \<le> 32" and "x \<in> {1..<pow2}" and "y \<in> {1..<pow2}" and "z \<in> {1..<pow2}"
  shows "tmpHashSet (fill_tmp g BB x y z)
           = (\<lambda>p. edgeHash (key_of g BB) (key_of g p) x y z) ` set (preds_of g BB) \<and>
         unat (edgeHash cur kp x y z) = spec_hash (unat cur) (unat kp) x y z"
proof -
  from assms have "1 \<le> y" and "z < 32" by simp_all
  then have "unat (edgeHash cur kp x y z) = spec_hash (unat cur) (unat kp) x y z"
    by (intro unat_edgeHash) simp_all
  then show ?thesis by (simp add: fill_tmp_eq cand_list_def)
qed

theorem C6_edgeHash_is_spec_formula_witness:
  "(16::nat) \<le> 32 \<and> (3::nat) \<in> {1..<16} \<and> (2::nat) \<in> {1..<16} \<and> (5::nat) \<in> {1..<16} \<and>
   unat (edgeHash 48879 4660 3 2 5) = spec_hash 48879 4660 3 2 5 \<and>
   spec_hash 48879 4660 3 2 5 = 4943 \<and> edgeHash 48879 4660 3 2 5 = 4943"
proof -
  have "unat (edgeHash 48879 4660 3 2 5) = spec_hash (unat (48879 :: u32)) (unat (4660 :: u32)) 3 2 5"
    using C6_edgeHash_is_spec_formula [of 16 3 2 5 cfgA 0 48879 4660] by simp
  moreover have "spec_hash 48879 4660 3 2 5 = 4943"
    by (simp add: spec_hash_def drop_bit_eq_div)
  moreover have "edgeHash 48879 4660 3 2 5 = 4943"
    by (simp add: edgeHash_def)
  ultimately show ?thesis by simp
qed

subsection \<open>The table builders\<close>

text \<open>
  C3. The claim: when every slot is taken, the builders fail with a fatal error instead
  of leaving an edge or a block without an entry. Neither function has an error path. On
  \<open>cfgC\<close>, five blocks with a single predecessor and four slots, the four slots are taken
  when the fifth block is reached, its scan finds nothing, and the run ends normally
  with no entry for the key 14 of the fifth block.
\<close>

theorem C3_no_slot_exhaustion_error_counterexample:
  "hashes (foldl (assign_single 2) (calcFhash 2 (calcFmul 2 cfgC) \<lparr> singleMap := Map.empty \<rparr>)
             [0, 1, 2, 3]) = {3, 2, 1, 0} \<and>
   first_free (MAP_SIZE 2) {3, 2, 1, 0} 0 = None \<and>
   key_of cfgC 4 = 14 \<and>
   run_phases 2 cfgC =
     cfgC \<lparr> hashes := {3, 2, 1, 0}, singleMap := [10 \<mapsto> 0, 11 \<mapsto> 1, 12 \<mapsto> 2, 13 \<mapsto> 3] \<rparr> \<and>
   singleMap (run_phases 2 cfgC) 14 = None"
proof -
  have m: "calcFmul 2 cfgC = cfgC"
    by (simp add: cfgC_def solver_defs)
  have h: "calcFhash 2 cfgC = cfgC"
    by (simp add: cfgC_def load_cfg_def init_globals_def builder_defs)
  have four: "foldl (assign_single 2) (cfgC \<lparr> singleMap := Map.empty \<rparr>) [0, 1, 2, 3] =
      cfgC \<lparr> hashes := {3, 2, 1, 0}, singleMap := [10 \<mapsto> 0, 11 \<mapsto> 1, 12 \<mapsto> 2, 13 \<mapsto> 3] \<rparr>"
    by (simp add: cfgC_def load_cfg_def init_globals_def builder_defs)
  have none: "first_free (MAP_SIZE 2) {3, 2, 1, 0} 0 = None"
    by (simp add: MAP_SIZE_def first_free.simps)
  have k: "key_of cfgC 4 = 14"
    by (simp add: cfgC_def load_cfg_def init_globals_def key_of_def)
  have r: "run_phases 2 cfgC =
     cfgC \<lparr> hashes := {3, 2, 1, 0}, singleMap := [10 \<mapsto> 0, 11 \<mapsto> 1, 12 \<mapsto> 2, 13 \<mapsto> 3] \<rparr>"
    unfolding run_phases_def m h
    by (simp add: cfgC_def load_cfg_def init_globals_def builder_defs)
  show ?thesis
    unfolding r m h four using none k by simp
qed

text \<open>
  C3, amended. When every slot index below \<open>MAP_SIZE\<close> is in \<open>hashes\<close>, the step for an
  edge and the step for a block with a single predecessor return the globals as they
  are: no entry is made, no error is raised, and the builders go on to the end of their
  lists, leaving an empty table.
\<close>

theorem C3_full_bitmap_is_skipped:
  assumes "\<forall>i < MAP_SIZE pow2. of_nat i \<in> hashes g"
  shows "assign_edge pow2 cur g p = g \<and> assign_single pow2 g BB = g \<and>
         calcFhash pow2 g = g \<lparr> hashMap := Map.empty \<rparr> \<and>
         calcSingle pow2 g = g \<lparr> singleMap := Map.empty \<rparr>"
proof -
  let ?h = "g \<lparr> hashMap := Map.empty \<rparr>" and ?s = "g \<lparr> singleMap := Map.empty \<rparr>"
  have "\<And>BB. hash_block pow2 ?h BB = ?h"
    unfolding hash_block_def using assms by (intro foldl_fixed assign_edge_full) simp
  then have "calcFhash pow2 g = ?h"
    unfolding calcFhash_def by (rule foldl_fixed)
  moreover have "calcSingle pow2 g = ?s"
    unfolding calcSingle_def using assms by (intro foldl_fixed assign_single_full) simp
  ultimately show ?thesis
    using assms by (simp add: assign_edge_full assign_single_full)
qed

theorem C3_full_bitmap_is_skipped_witness:
  "first_free (MAP_SIZE 2) (hashes (cfgC \<lparr> hashes := {3, 2, 1, 0} \<rparr>)) 0 = None \<and>
   assign_single 2 (cfgC \<lparr> hashes := {3, 2, 1, 0} \<rparr>) 4 = cfgC \<lparr> hashes := {3, 2, 1, 0} \<rparr> \<and>
   assign_edge 2 7 (cfgC \<lparr> hashes := {3, 2, 1, 0} \<rparr>) 4 = cfgC \<lparr> hashes := {3, 2, 1, 0} \<rparr>"
proof -
  have none: "first_free (MAP_SIZE 2) (hashes (cfgC \<lparr> hashes := {3, 2, 1, 0} \<rparr>)) 0 = None"
    by (simp add: MAP_SIZE_def first_free.simps)
  then have full: "\<forall>i < MAP_SIZE 2. (of_nat i :: u32) \<in> hashes (cfgC \<lparr> hashes := {3, 2, 1, 0} \<rparr>)"
    unfolding first_free_None by blast
  from C3_full_bitmap_is_skipped [OF full, of 7 4 4] none show ?thesis by simp
qed



subsection \<open>The sweep\<close>

text \<open>
  C8. \<open>calcFmul_from\<close> is a total function: its termination is proved where it is
  defined, with the measure \<open>MAP_SIZE_POW2 - y\<close>. The sweep is left with \<open>y\<close> at most
  \<open>MAP_SIZE_POW2\<close> (at most 1 when that is 0), after at most \<open>MAP_SIZE_POW2 - 1\<close> rounds.
  The rounds are the rounds \<open>y = 1, 2, \<dots>\<close>, each run on the globals the one before left,
  and the result is the last of them. The round \<open>y = k + 1\<close> is the last one and the loop
  is left with this \<open>y\<close>, which is the \<open>break\<close>, exactly when at its end \<open>unsolv\<close> has
  fewer than 10 elements or the quotient is below 0.001. The quotient of the source is a
  \<open>double\<close>; the one here is exact. By \<open>round_breaks_iff_few_blocks\<close> the exact quotient
  is at least 1/962 for \<open>MAP_SIZE_POW2\<close> up to 32, far from 0.001 on the scale of the
  rounding of a \<open>double\<close>.
\<close>

theorem C8_sweep_halts_and_breaks:
  "snd (calcFmul_from pow2 1 g) \<le> max 1 pow2 \<and>
   length (calcFmul_rounds pow2 1 g) \<le> pow2 - 1 \<and>
   calcFmul pow2 g = last (g # calcFmul_rounds pow2 1 g) \<and>
   (\<forall>k < length (calcFmul_rounds pow2 1 g).
      calcFmul_rounds pow2 1 g ! k
        = calcFmul_round pow2 (Suc k) ((g # calcFmul_rounds pow2 1 g) ! k) \<and>
      ((snd (calcFmul_from pow2 1 g) = Suc k \<and> Suc k = length (calcFmul_rounds pow2 1 g)) \<longleftrightarrow>
         (length (unsolv (calcFmul_rounds pow2 1 g ! k)) < 10 \<or>
          real (length (unsolv (calcFmul_rounds pow2 1 g ! k)))
            / real (length (unsolv (calcFmul_rounds pow2 1 g ! k))
                    + length (solv (calcFmul_rounds pow2 1 g ! k))) < 0.001)))"
proof (intro conjI allI impI)
  show "snd (calcFmul_from pow2 1 g) \<le> max 1 pow2"
    by (rule snd_calcFmul_from_le)
  show "length (calcFmul_rounds pow2 1 g) \<le> pow2 - 1"
    by (rule length_calcFmul_rounds)
  show "calcFmul pow2 g = last (g # calcFmul_rounds pow2 1 g)"
    unfolding calcFmul_def by (rule last_calcFmul_rounds)
next
  fix k
  assume k: "k < length (calcFmul_rounds pow2 1 g)"
  from nth_calcFmul_rounds [OF k]
  show "calcFmul_rounds pow2 1 g ! k
          = calcFmul_round pow2 (Suc k) ((g # calcFmul_rounds pow2 1 g) ! k)"
    by simp
  from break_calcFmul_rounds [OF k]
  have "(snd (calcFmul_from pow2 1 g) = Suc k \<and> Suc k = length (calcFmul_rounds pow2 1 g))
          \<longleftrightarrow> round_breaks (calcFmul_rounds pow2 1 g ! k)"
    by auto
  then show "(snd (calcFmul_from pow2 1 g) = Suc k \<and> Suc k = length (calcFmul_rounds pow2 1 g)) \<longleftrightarrow>
         (length (unsolv (calcFmul_rounds pow2 1 g ! k)) < 10 \<or>
          real (length (unsolv (calcFmul_rounds pow2 1 g ! k)))
            / real (length (unsolv (calcFmul_rounds pow2 1 g ! k))
                    + length (solv (calcFmul_rounds pow2 1 g ! k))) < 0.001)"
    unfolding round_breaks_plain .
qed

theorem C8_sweep_halts_and_breaks_witness:
  "calcFmul_rounds 3 1 cfgA = [calcFmul_round 3 1 cfgA] \<and>
   length (unsolv (calcFmul_round 3 1 cfgA)) = 1 \<and>
   snd (calcFmul_from 3 1 cfgA) = 1 \<and>
   length (multiBBS cfgD) = 10 \<and>
   length (calcFmul_rounds 3 1 cfgD) = 2 \<and>
   snd (calcFmul_from 3 1 cfgD) = 3 \<and>
   \<not> (snd (calcFmul_from 3 1 cfgD) = Suc 0 \<and> Suc 0 = length (calcFmul_rounds 3 1 cfgD))"
proof -
  have uA: "length (unsolv (calcFmul_round 3 1 cfgA)) = 1"
    unfolding round_cfgA by simp
  then have bA: "round_breaks (calcFmul_round 3 1 cfgA)"
    unfolding round_breaks_plain by simp
  have rA: "calcFmul_rounds 3 1 cfgA = [calcFmul_round 3 1 cfgA]"
    by (rule calcFmul_rounds_cases(2) [OF _ bA]) simp
  have "snd (calcFmul_from 3 1 cfgA) = Suc 0 \<and> Suc 0 = length (calcFmul_rounds 3 1 cfgA)"
    using C8_sweep_halts_and_breaks [of 3 cfgA] uA unfolding rA by simp
  then have sA: "snd (calcFmul_from 3 1 cfgA) = 1" by simp
  let ?r1 = "calcFmul_round 3 1 cfgD" and ?r2 = "calcFmul_round 3 2 (calcFmul_round 3 1 cfgD)"
  have mD: "length (multiBBS cfgD) = 10"
    by (simp add: cfgD_def load_cfg_def)
  have "multiBBS ?r1 = multiBBS cfgD"
    using same_cfg_calcFmul_round [of cfgD 3 1] by (simp add: same_cfg_def)
  with mD have m1: "length (multiBBS ?r1) = 10" by simp
  have n1: "\<not> round_breaks ?r1"
    using mD by (simp add: round_breaks_iff_few_blocks)
  have n2: "\<not> round_breaks ?r2"
    using m1 by (simp add: round_breaks_iff_few_blocks)
  have r3: "calcFmul_rounds 3 3 ?r2 = []"
    by (rule calcFmul_rounds_cases(1)) simp
  have r2: "calcFmul_rounds 3 2 ?r1 = [?r2]"
    using calcFmul_rounds_cases(3) [of 2 3 ?r1, OF _ n2] r3 by (simp add: numeral_3_eq_3 numeral_2_eq_2)
  have rD: "calcFmul_rounds 3 1 cfgD = [?r1, ?r2]"
    using calcFmul_rounds_cases(3) [of 1 3 cfgD, OF _ n1] r2 by (simp add: numeral_2_eq_2)
  have f3: "calcFmul_from 3 3 ?r2 = (?r2, 3)"
    by (rule calcFmul_from_cases(1)) simp
  have f2: "calcFmul_from 3 2 ?r1 = (?r2, 3)"
    using calcFmul_from_cases(3) [of 2 3 ?r1, OF _ n2] f3 by (simp add: numeral_3_eq_3 numeral_2_eq_2)
  have fD: "calcFmul_from 3 1 cfgD = (?r2, 3)"
    using calcFmul_from_cases(3) [of 1 3 cfgD, OF _ n1] f2 by (simp add: numeral_2_eq_2)
  show ?thesis
    unfolding rA rD fD using uA sA mD by simp
qed

subsection \<open>The three phases together\<close>

text \<open>
  C2. After the solver, the fallback builder and the builder for the blocks with a
  single predecessor have run on freshly loaded globals, whatever the blocks, keys and
  predecessor lists are: two owners of the same slot are the same owner. The owners are
  the incoming edges of the blocks that have parameters (by position in the predecessor
  list, with the hash under the final parameters), the entries of \<open>hashMap\<close> and the
  entries of \<open>singleMap\<close>.
\<close>

theorem C2_no_slot_has_two_owners:
  assumes "g = run_phases pow2 (load_cfg singles multis ps ks)"
    and "slot_of g a = Some s" and "slot_of g b = Some s"
  shows "a = b"
proof -
  have "run_inv g" unfolding assms(1) by (rule run_inv_run_phases)
  then show ?thesis using assms(2,3) by (rule run_inv_no_shared_slot)
qed

theorem C2_no_slot_has_two_owners_witness:
  "slot_of (run_phases 3 cfgA) (SolvedEdge 0 0) = Some 3 \<and>
   slot_of (run_phases 3 cfgA) (SolvedEdge 0 1) = Some 2 \<and>
   slot_of (run_phases 3 cfgA) (FallbackEdge (5, 2)) = Some 4 \<and>
   slot_of (run_phases 3 cfgA) (FallbackEdge (5, 4)) = Some 5 \<and>
   slot_of (run_phases 3 cfgA) (SingleBlock 1) = Some 6 \<and>
   slot_of (run_phases 3 cfgA) (SingleBlock 6) = Some 7 \<and>
   slot_of (run_phases 3 cfgA) (SingleBlock 1) \<noteq> Some 4 \<and>
   slot_of (run_phases 3 cfgA) (SolvedEdge 0 0) \<noteq> Some 4"
proof -
  let ?g = "run_phases 3 cfgA"
  have g: "?g = run_phases 3 (load_cfg [3, 4] [0] [0 \<mapsto> [1, 2]]
                   [0 \<mapsto> 5, 1 \<mapsto> 2, 2 \<mapsto> 4, 3 \<mapsto> 1, 4 \<mapsto> 6])"
    by (simp add: cfgA_def)
  have e: "slot_of ?g (SolvedEdge 0 0) = Some 3 \<and> slot_of ?g (SolvedEdge 0 1) = Some 2"
    unfolding run_cfgA
    by (simp add: cfgA_def load_cfg_def init_globals_def key_of_def preds_of_def edgeHash_def)
  have f: "slot_of ?g (FallbackEdge (5, 2)) = Some 4 \<and> slot_of ?g (FallbackEdge (5, 4)) = Some 5"
    unfolding run_cfgA by simp
  have s: "slot_of ?g (SingleBlock 1) = Some 6 \<and> slot_of ?g (SingleBlock 6) = Some 7"
    unfolding run_cfgA by simp
  have "slot_of ?g (SingleBlock 1) \<noteq> Some 4"
    using C2_no_slot_has_two_owners [OF g, of "FallbackEdge (5, 2)" 4 "SingleBlock 1"] f by auto
  moreover have "slot_of ?g (SolvedEdge 0 0) \<noteq> Some 4"
    using C2_no_slot_has_two_owners [OF g, of "FallbackEdge (5, 2)" 4 "SolvedEdge 0 0"] f by auto
  ultimately show ?thesis using e f s by simp
qed

text \<open>
  C9. The claim: from the start of the fallback phase to the end of the last phase
  \<open>hashes\<close> only grows and never has more than \<open>MAP_SIZE\<close> elements. It does only grow,
  but the bound needs the keys to be below \<open>MAP_SIZE\<close>, which nothing in the three
  functions checks. On \<open>cfgE\<close>, with 4 slots and the keys 16 and 32, the solver leaves
  the hashes 9 and 17, the builders add the four slots 0 to 3, and \<open>hashes\<close> ends with
  six elements.
\<close>

theorem C9_more_slots_than_map_size_counterexample:
  "MAP_SIZE 2 = 4 \<and> hashes (calcFmul 2 cfgE) = {9, 17} \<and>
   hashes (run_phases 2 cfgE) = {3, 2, 1, 0, 9, 17} \<and>
   card (hashes (run_phases 2 cfgE)) = 6"
proof -
  have m: "calcFmul 2 cfgE =
             cfgE \<lparr> hashes := {9, 17}, tmpHashSet := {9, 17}, solv := [0], unsolv := [0],
                    params := [0 \<mapsto> (1, 1, 1)] \<rparr>"
    by (simp add: cfgE_def solver_defs) (auto simp: fun_eq_iff)
  have r: "hashes (run_phases 2 cfgE) = {3, 2, 1, 0, 9, 17}"
    unfolding run_phases_def m
    by (simp add: cfgE_def load_cfg_def init_globals_def builder_defs)
  show ?thesis unfolding r m by (simp add: MAP_SIZE_def)
qed

text \<open>
  C9, amended. Every step of the two builders returns globals whose \<open>hashes\<close> contains
  the one it started from, so \<open>hashes\<close> grows from the end of the solver through every
  block of the fallback phase and every block of the last phase, and is never cleared.
  When every key is below \<open>MAP_SIZE\<close>, every element of \<open>hashes\<close> at the end (the hashes
  that the solver left in its last round and the slots that the builders added) is below
  \<open>MAP_SIZE\<close>, and \<open>hashes\<close> has at most \<open>MAP_SIZE\<close> elements, at the end and hence at
  every moment before.
\<close>

theorem C9_hashes_grow_and_stay_below:
  assumes "g1 = calcFmul pow2 (load_cfg singles multis ps ks)"
    and "g2 = calcFhash pow2 g1" and "g3 = calcSingle pow2 g2"
  shows "hashes g \<subseteq> hashes (assign_edge pow2 cur g p) \<and>
         hashes g \<subseteq> hashes (assign_single pow2 g BB) \<and>
         hashes g1
           \<subseteq> hashes (foldl (hash_block pow2) (g1 \<lparr> hashMap := Map.empty \<rparr>) (take n (unsolv g1))) \<and>
         hashes (foldl (hash_block pow2) (g1 \<lparr> hashMap := Map.empty \<rparr>) (take n (unsolv g1)))
           \<subseteq> hashes g2 \<and>
         hashes g2
           \<subseteq> hashes (foldl (assign_single pow2) (g2 \<lparr> singleMap := Map.empty \<rparr>)
                       (take n (singleBBS g2))) \<and>
         hashes (foldl (assign_single pow2) (g2 \<lparr> singleMap := Map.empty \<rparr>) (take n (singleBBS g2)))
           \<subseteq> hashes g3 \<and>
         card (hashes g1) \<le> card (hashes g2) \<and> card (hashes g2) \<le> card (hashes g3) \<and>
         ((\<forall>b k. ks b = Some k \<longrightarrow> unat k < MAP_SIZE pow2) \<longrightarrow>
            (\<forall>h. h \<in> hashes g3 \<longrightarrow> unat h < MAP_SIZE pow2) \<and>
            card (hashes g3) \<le> MAP_SIZE pow2)"
proof -
  let ?h = "g1 \<lparr> hashMap := Map.empty \<rparr>" and ?s = "g2 \<lparr> singleMap := Map.empty \<rparr>"
  have a: "hashes g1 \<subseteq> hashes (foldl (hash_block pow2) ?h (take n (unsolv g1)))"
    using foldl_grows [of "hash_block pow2" ?h "take n (unsolv g1)", OF hashes_hash_block]
    by simp
  have b: "hashes (foldl (hash_block pow2) ?h (take n (unsolv g1))) \<subseteq> hashes g2"
    unfolding assms(2) calcFhash_def by (rule hashes_blocks_prefix)
  have c: "hashes g2 \<subseteq> hashes (foldl (assign_single pow2) ?s (take n (singleBBS g2)))"
    using foldl_grows [of "assign_single pow2" ?s "take n (singleBBS g2)", OF hashes_assign_single]
    by simp
  have d: "hashes (foldl (assign_single pow2) ?s (take n (singleBBS g2))) \<subseteq> hashes g3"
    unfolding assms(3) calcSingle_def by (rule hashes_singles_prefix)
  have e: "card (hashes g1) \<le> card (hashes g2)" "card (hashes g2) \<le> card (hashes g3)"
    unfolding assms(2,3) by (intro card_mono hashes_calcFhash hashes_calcSingle, simp)+
  have f: "(\<forall>h. h \<in> hashes g3 \<longrightarrow> unat h < MAP_SIZE pow2) \<and> card (hashes g3) \<le> MAP_SIZE pow2"
    if k: "\<forall>b k. ks b = Some k \<longrightarrow> unat k < MAP_SIZE pow2"
  proof -
    let ?g0 = "load_cfg singles multis ps ks"
    from k have "keys_below (2 ^ pow2) ?g0"
      by (simp add: keys_below_def load_cfg_def MAP_SIZE_def)
    moreover have "slots_below (2 ^ pow2) ?g0"
      by (simp add: slots_below_def load_cfg_def init_globals_def)
    ultimately have "slots_below (2 ^ pow2) g1"
      unfolding assms(1) by (rule slots_below_calcFmul)
    then have "slots_below (MAP_SIZE pow2) g1" by (simp add: MAP_SIZE_def)
    then have "slots_below (MAP_SIZE pow2) g3"
      unfolding assms(2,3) by (intro slots_below_calcSingle slots_below_calcFhash)
    then show ?thesis
      using card_slots_below [of "MAP_SIZE pow2" g3] by (simp add: slots_below_def)
  qed
  from a b c d e f hashes_assign_edge [of g pow2 cur p] hashes_assign_single [of g pow2 BB]
  show ?thesis by blast
qed

theorem C9_hashes_grow_and_stay_below_witness:
  "unat (5 :: u32) < MAP_SIZE 3 \<and> unat (2 :: u32) < MAP_SIZE 3 \<and> unat (4 :: u32) < MAP_SIZE 3 \<and>
   unat (1 :: u32) < MAP_SIZE 3 \<and> unat (6 :: u32) < MAP_SIZE 3 \<and>
   hashes (calcFmul 3 cfgA) = {0, 1, 2, 3} \<and>
   hashes (calcSingle 3 (calcFhash 3 (calcFmul 3 cfgA))) = {7, 6, 5, 4, 0, 1, 2, 3} \<and>
   card (hashes (calcSingle 3 (calcFhash 3 (calcFmul 3 cfgA)))) \<le> MAP_SIZE 3"
proof -
  let ?ks = "[0 \<mapsto> 5, 1 \<mapsto> 2, 2 \<mapsto> 4, 3 \<mapsto> 1, 4 \<mapsto> (6 :: u32)]"
  have g: "calcFmul 3 cfgA = calcFmul 3 (load_cfg [3, 4] [0] [0 \<mapsto> [1, 2]] ?ks)"
    by (simp add: cfgA_def)
  have k: "\<forall>b k. ?ks b = Some k \<longrightarrow> unat k < MAP_SIZE 3"
    by (simp add: MAP_SIZE_def)
  have "card (hashes (calcSingle 3 (calcFhash 3 (calcFmul 3 cfgA)))) \<le> MAP_SIZE 3"
    using C9_hashes_grow_and_stay_below
            [OF g refl refl, where n = 0 and g = cfgA and cur = 0 and p = 0 and BB = 0] k
    by blast
  moreover have "hashes (calcFmul 3 cfgA) = {0, 1, 2, 3}"
    unfolding calcFmul_cfgA round_cfgA by simp
  moreover have "hashes (calcSingle 3 (calcFhash 3 (calcFmul 3 cfgA))) = {7, 6, 5, 4, 0, 1, 2, 3}"
    using run_cfgA unfolding run_phases_def by simp
  ultimately show ?thesis by (simp add: MAP_SIZE_def)
qed

subsection \<open>The pass entry point\<close>

text \<open>
  C10. \<open>runOnModule\<close> is in scope of the solver's globals but does not use them: for any
  module and environment, either the run ends in the \<open>FATAL\<close> of the instrumentation
  ratio whatever the globals are, or it returns the globals it was given together with a
  result that is the same for any other globals. In that result the instrumented blocks
  carry the instructions for the values \<open>cur_loc\<close> of an increasing sequence of draws of
  \<open>AFL_R(MAP_SIZE)\<close>, one draw of its own for each block, and the two stores of a block
  increment the byte at index \<open>__afl_prev_loc XOR cur_loc\<close> of the map and set
  \<open>__afl_prev_loc\<close> to \<open>cur_loc >> 1\<close>. No parameter triple, \<open>hashMap\<close> or \<open>singleMap\<close>
  entry enters the instructions.
\<close>

theorem C10_instrumentation_ignores_solver:
  fixes g g' :: "'b globals" and M :: "'b list list"
  shows
  "((runOnModule pow2 e M g = Inl Bad_AFL_INST_RATIO \<and>
     runOnModule pow2 e M g' = Inl Bad_AFL_INST_RATIO) \<or>
    (\<exists>r ns. runOnModule pow2 e M g = Inr (r, g) \<and> runOnModule pow2 e M g' = Inr (r, g') \<and>
       sorted_wrt (<) ns \<and>
       map snd (instrumented r)
         = map (\<lambda>n. instrument (of_nat (AFL_R e n (MAP_SIZE pow2)))) ns)) \<and>
   filter is_store (instrument cur_loc) =
     [CreateStore
        (CreateAdd
           (CreateLoad (CreateGEP (CreateLoad AFLMapPtr)
              (CreateXor (CreateZExt (CreateLoad AFLPrevLoc) 32) (ConstantInt 32 (unat cur_loc)))))
           (ConstantInt 8 1))
        (CreateGEP (CreateLoad AFLMapPtr)
           (CreateXor (CreateZExt (CreateLoad AFLPrevLoc) 32) (ConstantInt 32 (unat cur_loc)))),
      CreateStore (ConstantInt 32 (unat (drop_bit 1 cur_loc))) AFLPrevLoc]"
proof (intro conjI)
  show "(runOnModule pow2 e M g = Inl Bad_AFL_INST_RATIO \<and>
         runOnModule pow2 e M g' = Inl Bad_AFL_INST_RATIO) \<or>
        (\<exists>r ns. runOnModule pow2 e M g = Inr (r, g) \<and> runOnModule pow2 e M g' = Inr (r, g') \<and>
           sorted_wrt (<) ns \<and>
           map snd (instrumented r)
             = map (\<lambda>n. instrument (of_nat (AFL_R e n (MAP_SIZE pow2)))) ns)"
  proof (cases "read_inst_ratio e")
    case (Inl err)
    moreover have "err = Bad_AFL_INST_RATIO" by (cases err) simp
    ultimately show ?thesis by (simp add: runOnModule_fatal)
  next
    case (Inr inst_ratio)
    let ?init = "\<lparr> draws = 0, inst_blocks = 0, inserted = [] \<rparr> :: 'b emit_state"
    let ?st = "foldl (\<lambda>st F. foldl (visit_block pow2 e inst_ratio) st F) ?init M"
    from runOnModule_finished [OF Inr, of pow2 M] obtain r where
      r: "\<And>h :: 'b globals. runOnModule pow2 e M h = Inr (r, h)" "instrumented r = inserted ?st"
      by blast
    have "drawn_after pow2 e ?init ?st" by (rule drawn_after_module)
    then obtain ns where "sorted_wrt (<) ns"
      and "map snd (inserted ?st) = map (\<lambda>n. instrument (of_nat (AFL_R e n (MAP_SIZE pow2)))) ns"
      unfolding drawn_after_def by auto
    with r show ?thesis by auto
  qed
qed (rule instrument_stores)

theorem C10_instrumentation_ignores_solver_witness:
  "runOnModule 16 envW [[0, 1]] cfgA =
     Inr (\<lparr> module_globals = [AFLMapPtr, AFLPrevLoc],
             instrumented = [(0, instrument 10), (1, instrument 24)],
             messages = [], returned = True \<rparr>, cfgA) \<and>
   runOnModule 16 envW [[0, 1]] (run_phases 3 cfgA) =
     Inr (\<lparr> module_globals = [AFLMapPtr, AFLPrevLoc],
             instrumented = [(0, instrument 10), (1, instrument 24)],
             messages = [], returned = True \<rparr>, run_phases 3 cfgA)"
proof -
  have a: "runOnModule 16 envW [[0, 1]] cfgA =
     Inr (\<lparr> module_globals = [AFLMapPtr, AFLPrevLoc],
             instrumented = [(0, instrument 10), (1, instrument 24)],
             messages = [], returned = True \<rparr>, cfgA)"
    by (simp add: runOnModule_def read_inst_ratio_def visit_block_def envW_def MAP_SIZE_def Let_def)
  with C10_instrumentation_ignores_solver [of 16 envW "[[0, 1]]" cfgA "run_phases 3 cfgA"]
  show ?thesis by auto
qed

end
